theory Spec2Isabelle
  imports Main "HOL-Library.Monad_Syntax"
begin

section \<open>The LRU cache of the proxy (proxylab/cache.c)\<close>

text \<open>
  The cache is a circular doubly-linked list of heap-allocated \<open>entry_t\<close> objects,
  reached from \<open>cache->head\<close>. The model keeps the pointers: an address is a natural
  number, a pointer is an \<open>addr option\<close> (\<open>None\<close> is \<open>NULL\<close>), and the allocated
  entries are a partial map from addresses to records. Every function of cache.c becomes
  a function on this state. A result \<open>None\<close> of a state-passing function means that the
  C code dereferences \<open>NULL\<close> or freed memory, or that one of its loops does not return.

  Each public operation of cache.c runs between \<open>cache_mutex_lock\<close> and
  \<open>cache_mutex_unlock\<close>, so operations of different threads never overlap: the model is
  of the bodies between lock and unlock, and an interleaving of threads is a sequence of
  operations. The \<open>dbg_assert\<close> and \<open>dbg_printf\<close> macros expand to nothing (debug.h
  leaves \<open>DEBUG\<close> undefined).
\<close>

type_synonym addr = nat
type_synonym bytes = "char list"

definition MAX_CACHE_SIZE :: nat where
  "MAX_CACHE_SIZE = 1024 * 1024"

definition MAX_OBJECT_SIZE :: nat where
  "MAX_OBJECT_SIZE = 100 * 1024"

text \<open>\<open>size_t\<close> is 64 bits wide: additions and subtractions wrap modulo \<open>SIZE_MOD\<close>.\<close>

definition SIZE_MOD :: nat where
  "SIZE_MOD = 2 ^ 64"

text \<open>
  \<open>struct entry\<close>. The reference count is a C \<open>int\<close>; the model counts in the
  integers, that is, it covers the executions in which fewer than \<open>2^31\<close> references to
  one entry are alive at a time.
\<close>

record entry =
  e_key :: string
  e_val :: bytes
  e_size :: nat
  e_next :: "addr option"
  e_prev :: "addr option"
  e_ref :: int

text \<open>\<open>_cache_t\<close> (without its mutex) together with the allocated entries.\<close>

record cache =
  c_size :: nat
  c_head :: "addr option"
  mem :: "addr \<rightharpoonup> entry"

text \<open>Writing through a pointer to an entry: undefined when the entry is not allocated.\<close>

definition wr :: "addr \<Rightarrow> (entry \<Rightarrow> entry) \<Rightarrow> cache \<Rightarrow> cache option" where
  "wr a f c = (case mem c a of
                 None \<Rightarrow> None
               | Some x \<Rightarrow> Some (c\<lparr>mem := (mem c)(a \<mapsto> f x)\<rparr>))"

text \<open>\<open>malloc_with_data\<close> (util.c): a fresh buffer holding the first \<open>size\<close> bytes of
  \<open>src\<close>. The caller's buffer holds at least \<open>size\<close> bytes.\<close>

definition malloc_with_data :: "bytes \<Rightarrow> nat \<Rightarrow> bytes" where
  "malloc_with_data src n = take n src"

text \<open>\<open>cache_create\<close>: \<open>Calloc\<close> gives a zeroed \<open>_cache_t\<close>.\<close>

definition cache_create :: cache where
  "cache_create = \<lparr>c_size = 0, c_head = None, mem = Map.empty\<rparr>"

text \<open>The \<open>do ... while\<close> loop of \<open>find\<close>, from the entry \<open>cur\<close>.\<close>

partial_function (option) find_loop :: "cache \<Rightarrow> string \<Rightarrow> addr \<Rightarrow> addr option option" where
  "find_loop c k cur =
     (case mem c cur of
        None \<Rightarrow> None
      | Some x \<Rightarrow>
          if e_key x = k then Some (Some cur)
          else (case e_next x of
                  None \<Rightarrow> Some None
                | Some n \<Rightarrow> if Some n = c_head c then Some None else find_loop c k n))"

declare find_loop.simps [code]

definition find :: "cache \<Rightarrow> string \<Rightarrow> addr option option" where
  "find c k = (case c_head c of None \<Rightarrow> Some None | Some cur \<Rightarrow> find_loop c k cur)"

text \<open>\<open>insert_front\<close>: link \<open>e\<close> in before the head, make it the head, add its size.\<close>

definition insert_front :: "cache \<Rightarrow> addr \<Rightarrow> cache option" where
  "insert_front c e =
     do {
       c' \<leftarrow> (case c_head c of
                None \<Rightarrow> do {
                  c1 \<leftarrow> wr e (\<lambda>x. x\<lparr>e_prev := Some e\<rparr>) c;
                  wr e (\<lambda>x. x\<lparr>e_next := Some e\<rparr>) c1
                }
              | Some head \<Rightarrow> do {
                  h \<leftarrow> mem c head;
                  prev \<leftarrow> e_prev h;
                  c1 \<leftarrow> wr prev (\<lambda>x. x\<lparr>e_next := Some e\<rparr>) c;
                  c2 \<leftarrow> wr head (\<lambda>x. x\<lparr>e_prev := Some e\<rparr>) c1;
                  c3 \<leftarrow> wr e (\<lambda>x. x\<lparr>e_next := Some head\<rparr>) c2;
                  wr e (\<lambda>x. x\<lparr>e_prev := Some prev\<rparr>) c3
                });
       x \<leftarrow> mem c' e;
       Some (c'\<lparr>c_head := Some e, c_size := (c_size c' + e_size x) mod SIZE_MOD\<rparr>)
     }"

text \<open>\<open>remove_entry\<close>: unlink \<open>e\<close>, move the head off it, clear its links, subtract
  its size.\<close>

definition remove_entry :: "cache \<Rightarrow> addr \<Rightarrow> cache option" where
  "remove_entry c e =
     do {
       x \<leftarrow> mem c e;
       c1 \<leftarrow> (if e_next x = Some e then Some (c\<lparr>c_head := None\<rparr>)
              else do {
                prev \<leftarrow> e_prev x;
                c' \<leftarrow> wr prev (\<lambda>y. y\<lparr>e_next := e_next x\<rparr>) c;
                next \<leftarrow> e_next x;
                wr next (\<lambda>y. y\<lparr>e_prev := Some prev\<rparr>) c'
              });
       x1 \<leftarrow> mem c1 e;
       c2 \<leftarrow> Some (if c_head c1 = Some e then c1\<lparr>c_head := e_next x1\<rparr> else c1);
       c3 \<leftarrow> wr e (\<lambda>y. y\<lparr>e_prev := None\<rparr>) c2;
       c4 \<leftarrow> wr e (\<lambda>y. y\<lparr>e_next := None\<rparr>) c3;
       x4 \<leftarrow> mem c4 e;
       Some (c4\<lparr>c_size := (c_size c4 + SIZE_MOD - e_size x4) mod SIZE_MOD\<rparr>)
     }"

text \<open>\<open>free_entry\<close>: the entry, its key and its value are freed together.\<close>

definition free_entry :: "cache \<Rightarrow> addr \<Rightarrow> cache option" where
  "free_entry c e = (case mem c e of
                       None \<Rightarrow> None
                     | Some x \<Rightarrow> Some (c\<lparr>mem := (mem c)(e := None)\<rparr>))"

definition evict_entry :: "cache \<Rightarrow> addr \<Rightarrow> cache option" where
  "evict_entry c e =
     do {
       c1 \<leftarrow> remove_entry c e;
       c2 \<leftarrow> wr e (\<lambda>y. y\<lparr>e_ref := e_ref y - 1\<rparr>) c1;
       x \<leftarrow> mem c2 e;
       if e_ref x = 0 then free_entry c2 e else Some c2
     }"

text \<open>The eviction loop of \<open>cache_insert\<close>: the victim is \<open>cache->head->prev\<close>.\<close>

partial_function (option) evict_loop :: "cache \<Rightarrow> cache option" where
  "evict_loop c =
     (if c_size c > MAX_CACHE_SIZE \<and> c_head c \<noteq> None then
        do {
          head \<leftarrow> c_head c;
          h \<leftarrow> mem c head;
          victim \<leftarrow> e_prev h;
          c' \<leftarrow> evict_entry c victim;
          evict_loop c'
        }
      else Some c)"

declare evict_loop.simps [code]

text \<open>
  \<open>cache_insert\<close>. The extra argument \<open>a\<close> is the address that \<open>Calloc\<close> returns when
  the key is new; \<open>Calloc\<close> never returns the address of a live object, so callers supply
  an \<open>a\<close> outside \<open>dom (mem c)\<close>. The result pairs the returned pointer with the new
  state.
\<close>

definition cache_insert :: "cache \<Rightarrow> string \<Rightarrow> bytes \<Rightarrow> nat \<Rightarrow> addr \<Rightarrow> (addr option \<times> cache) option" where
  "cache_insert c k v n a =
     (if n > MAX_OBJECT_SIZE then Some (None, c)
      else do {
        r \<leftarrow> find c k;
        case r of
          None \<Rightarrow> do {
            c1 \<leftarrow> Some (c\<lparr>mem := (mem c)(a \<mapsto>
                     \<lparr>e_key = k, e_val = malloc_with_data v n, e_size = n,
                      e_next = None, e_prev = None, e_ref = 1\<rparr>)\<rparr>);
            c2 \<leftarrow> insert_front c1 a;
            c3 \<leftarrow> evict_loop c2;
            Some (Some a, c3)
          }
        | Some e \<Rightarrow> do {
            c1 \<leftarrow> remove_entry c e;
            c2 \<leftarrow> insert_front c1 e;
            Some (Some e, c2)
          }
      })"

definition cache_get :: "cache \<Rightarrow> string \<Rightarrow> (addr option \<times> cache) option" where
  "cache_get c k =
     do {
       r \<leftarrow> find c k;
       case r of
         None \<Rightarrow> Some (None, c)
       | Some e \<Rightarrow> do {
           c1 \<leftarrow> remove_entry c e;
           c2 \<leftarrow> insert_front c1 e;
           c3 \<leftarrow> wr e (\<lambda>y. y\<lparr>e_ref := e_ref y + 1\<rparr>) c2;
           Some (Some e, c3)
         }
     }"

definition cache_entry_release :: "cache \<Rightarrow> addr \<Rightarrow> cache option" where
  "cache_entry_release c e =
     do {
       c1 \<leftarrow> wr e (\<lambda>y. y\<lparr>e_ref := e_ref y - 1\<rparr>) c;
       x \<leftarrow> mem c1 e;
       if e_ref x = 0 then free_entry c1 e else Some c1
     }"

subsection \<open>Reading the state: the LRU order, clients and sequences of operations\<close>

text \<open>
  The entries held by the LRU structure, most recently used first: the walk from
  \<open>cache->head\<close> along the \<open>next\<close> pointers until the head comes round again.
\<close>

partial_function (option) walk :: "cache \<Rightarrow> addr \<Rightarrow> addr list option" where
  "walk c a =
     (case mem c a of
        None \<Rightarrow> None
      | Some x \<Rightarrow>
          (case e_next x of
             None \<Rightarrow> None
           | Some n \<Rightarrow> if Some n = c_head c then Some [a]
                      else do { r \<leftarrow> walk c n; Some (a # r) }))"

declare walk.simps [code]

definition lru_entries :: "cache \<Rightarrow> addr list option" where
  "lru_entries c = (case c_head c of None \<Rightarrow> Some [] | Some h \<Rightarrow> walk c h)"

text \<open>Fields of the entry at an address (of an allocated entry).\<close>

definition key_of :: "cache \<Rightarrow> addr \<Rightarrow> string" where
  "key_of c a = e_key (the (mem c a))"

definition val_of :: "cache \<Rightarrow> addr \<Rightarrow> bytes" where
  "val_of c a = e_val (the (mem c a))"

definition size_of :: "cache \<Rightarrow> addr \<Rightarrow> nat" where
  "size_of c a = e_size (the (mem c a))"

definition ref_of :: "cache \<Rightarrow> addr \<Rightarrow> int" where
  "ref_of c a = e_ref (the (mem c a))"

text \<open>The bytes an entry owns: key, value and size, or \<open>None\<close> once it is freed.\<close>

definition content :: "cache \<Rightarrow> addr \<Rightarrow> (string \<times> bytes \<times> nat) option" where
  "content c a = map_option (\<lambda>x. (e_key x, e_val x, e_size x)) (mem c a)"

text \<open>Everything of an entry but its links.\<close>

definition data :: "entry \<Rightarrow> string \<times> bytes \<times> nat \<times> int" where
  "data x = (e_key x, e_val x, e_size x, e_ref x)"

definition total :: "cache \<Rightarrow> addr list \<Rightarrow> nat" where
  "total c xs = sum_list (map (size_of c) xs)"

text \<open>
  The operations of the public interface. \<open>Insert k v n a\<close> is
  \<open>cache_insert(cache, k, v, n)\<close> where \<open>Calloc\<close> would return \<open>a\<close>;
  \<open>Release e\<close> is \<open>cache_entry_release(cache, e)\<close>. Beside the cache, a run records
  the handles that clients hold: the pointers returned by \<open>cache_get\<close> and not yet
  released, one occurrence for each.
\<close>

datatype op = Insert string bytes nat addr | Get string | Release addr

type_synonym world = "cache \<times> addr list"

fun exec :: "op \<Rightarrow> world \<Rightarrow> world option" where
  "exec (Insert k v n a) (c, hs) =
     (case cache_insert c k v n a of None \<Rightarrow> None | Some (r, c') \<Rightarrow> Some (c', hs))"
| "exec (Get k) (c, hs) =
     (case cache_get c k of
        None \<Rightarrow> None
      | Some (None, c') \<Rightarrow> Some (c', hs)
      | Some (Some e, c') \<Rightarrow> Some (c', e # hs))"
| "exec (Release e) (c, hs) =
     (case cache_entry_release c e of None \<Rightarrow> None | Some c' \<Rightarrow> Some (c', remove1 e hs))"

text \<open>
  What the interface asks of its environment: the allocator returns an address that is
  not in use, and a client releases only a handle it holds (every handle obtained from
  \<open>cache_get\<close> is released at most once).
\<close>

fun admissible :: "op \<Rightarrow> world \<Rightarrow> bool" where
  "admissible (Insert k v n a) (c, hs) = (mem c a = None)"
| "admissible (Get k) (c, hs) = True"
| "admissible (Release e) (c, hs) = (e \<in> set hs)"

definition step :: "op \<Rightarrow> world \<Rightarrow> world option" where
  "step x w = (if admissible x w then exec x w else None)"

fun run :: "op list \<Rightarrow> world \<Rightarrow> world option" where
  "run [] w = Some w"
| "run (x # xs) w = (case step x w of None \<Rightarrow> None | Some w' \<Rightarrow> run xs w')"

definition start :: world where
  "start = (cache_create, [])"

text \<open>The eviction algorithm in the words of the specification, on the list of held
  entries (most recently used first) with their sizes.\<close>

function evict_spec :: "(addr \<Rightarrow> nat) \<Rightarrow> addr list \<Rightarrow> addr list" where
  "evict_spec sz xs =
     (if sum_list (map sz xs) > MAX_CACHE_SIZE \<and> xs \<noteq> [] then evict_spec sz (butlast xs)
      else xs)"
  by pat_completeness auto
termination
  by (relation "measure (\<lambda>(sz, xs). length xs)") auto

declare evict_spec.simps [simp del]

subsection \<open>The shape of the heap\<close>

text \<open>\<open>linked h a b\<close>: in the heap \<open>h\<close>, \<open>a->next == b\<close> and \<open>b->prev == a\<close>.\<close>

definition linked :: "(addr \<rightharpoonup> entry) \<Rightarrow> addr \<Rightarrow> addr \<Rightarrow> bool" where
  "linked h a b \<longleftrightarrow>
     map_option e_next (h a) = Some (Some b) \<and> map_option e_prev (h b) = Some (Some a)"

text \<open>The addresses \<open>xs\<close> form a ring: each is linked to its successor, the last to
  the first.\<close>

definition ring :: "(addr \<rightharpoonup> entry) \<Rightarrow> addr list \<Rightarrow> bool" where
  "ring h xs \<longleftrightarrow> distinct xs \<and> list_all2 (linked h) xs (rotate1 xs)"

text \<open>\<open>lru c xs\<close>: the cache holds exactly the ring \<open>xs\<close>, headed by its first
  element, and \<open>cache->size\<close> is the sum of the sizes.\<close>

definition lru :: "cache \<Rightarrow> addr list \<Rightarrow> bool" where
  "lru c xs \<longleftrightarrow>
     c_head c = (case xs of [] \<Rightarrow> None | x # _ \<Rightarrow> Some x) \<and>
     ring (mem c) xs \<and>
     c_size c = total c xs \<and>
     c_size c < SIZE_MOD"

text \<open>
  Well-formed worlds: the cache holds a ring, the keys in it are pairwise different, the
  allocated entries are those in the ring or held by a client, and each reference count
  is the number of handles to the entry plus one for the ring. The invariant of a run
  adds the byte budget.
\<close>

definition refs_ok :: "cache \<Rightarrow> addr list \<Rightarrow> addr list \<Rightarrow> bool" where
  "refs_ok c xs hs \<longleftrightarrow>
     (\<forall>a. case mem c a of
            None \<Rightarrow> a \<notin> set xs \<and> a \<notin> set hs
          | Some x \<Rightarrow> e_ref x = int (count_list hs a) + (if a \<in> set xs then 1 else 0)
                      \<and> 0 < e_ref x)"

text \<open>The same with one more reference to \<open>e\<close>, the one a decrement is about to
  take away.\<close>

definition refs_extra :: "cache \<Rightarrow> addr list \<Rightarrow> addr list \<Rightarrow> addr \<Rightarrow> bool" where
  "refs_extra c xs hs e \<longleftrightarrow>
     (\<forall>a. case mem c a of
            None \<Rightarrow> a \<notin> set xs \<and> a \<notin> set hs \<and> a \<noteq> e
          | Some x \<Rightarrow> e_ref x = int (count_list hs a) + (if a \<in> set xs then 1 else 0)
                                + (if a = e then 1 else 0)
                      \<and> 0 < e_ref x)"

text \<open>\<open>if (--e->ref == 0) free_entry(e);\<close> as \<open>evict_entry\<close> and
  \<open>cache_entry_release\<close> both have it.\<close>

definition unref :: "cache \<Rightarrow> addr \<Rightarrow> cache option" where
  "unref c e =
     do {
       c1 \<leftarrow> wr e (\<lambda>y. y\<lparr>e_ref := e_ref y - 1\<rparr>) c;
       x \<leftarrow> mem c1 e;
       if e_ref x = 0 then free_entry c1 e else Some c1
     }"

definition wf :: "world \<Rightarrow> addr list \<Rightarrow> bool" where
  "wf w xs \<longleftrightarrow>
     (case w of (c, hs) \<Rightarrow>
        lru c xs \<and> distinct (map (key_of c) xs) \<and> refs_ok c xs hs)"

definition inv :: "world \<Rightarrow> addr list \<Rightarrow> bool" where
  "inv w xs \<longleftrightarrow> wf w xs \<and> c_size (fst w) \<le> MAX_CACHE_SIZE"

subsection \<open>Runs that keep an entry, and concrete scenarios\<close>

text \<open>\<open>kept a ops w\<close>: in the run of \<open>ops\<close> from \<open>w\<close>, the entry at \<open>a\<close> is in
  the LRU structure before and after every operation (it is never evicted).\<close>

definition in_lru :: "addr \<Rightarrow> world \<Rightarrow> bool" where
  "in_lru a w = (case lru_entries (fst w) of None \<Rightarrow> False | Some ys \<Rightarrow> a \<in> set ys)"

fun kept :: "addr \<Rightarrow> op list \<Rightarrow> world \<Rightarrow> bool" where
  "kept a [] w = in_lru a w"
| "kept a (x # xs) w =
     (in_lru a w \<and> (case step x w of None \<Rightarrow> False | Some w' \<Rightarrow> kept a xs w'))"

text \<open>The cache after a run from \<open>cache_create\<close> (the empty cache if the run fails).\<close>

definition cache_after :: "op list \<Rightarrow> cache" where
  "cache_after ops = (case run ops start of None \<Rightarrow> cache_create | Some (c, hs) \<Rightarrow> c)"

text \<open>An object of \<open>n\<close> bytes, all equal to \<open>ch\<close>.\<close>

definition obj :: "nat \<Rightarrow> char \<Rightarrow> bytes" where
  "obj n ch = replicate n ch"

text \<open>Scenario D of the specification: ten objects of 200 KiB, \<open>k0\<close> to \<open>k9\<close>.\<close>

definition scenario_d :: "op list" where
  "scenario_d =
     [Insert ''k0'' (obj 204800 CHR ''0'') 204800 1, Insert ''k1'' (obj 204800 CHR ''1'') 204800 2,
      Insert ''k2'' (obj 204800 CHR ''2'') 204800 3, Insert ''k3'' (obj 204800 CHR ''3'') 204800 4,
      Insert ''k4'' (obj 204800 CHR ''4'') 204800 5, Insert ''k5'' (obj 204800 CHR ''5'') 204800 6,
      Insert ''k6'' (obj 204800 CHR ''6'') 204800 7, Insert ''k7'' (obj 204800 CHR ''7'') 204800 8,
      Insert ''k8'' (obj 204800 CHR ''8'') 204800 9, Insert ''k9'' (obj 204800 CHR ''9'') 204800 10]"

text \<open>The same with objects of 100 KiB, the largest the cache accepts, and one more.\<close>

definition scenario_d100 :: "op list" where
  "scenario_d100 =
     [Insert ''k0'' (obj 102400 CHR ''0'') 102400 1, Insert ''k1'' (obj 102400 CHR ''1'') 102400 2,
      Insert ''k2'' (obj 102400 CHR ''2'') 102400 3, Insert ''k3'' (obj 102400 CHR ''3'') 102400 4,
      Insert ''k4'' (obj 102400 CHR ''4'') 102400 5, Insert ''k5'' (obj 102400 CHR ''5'') 102400 6,
      Insert ''k6'' (obj 102400 CHR ''6'') 102400 7, Insert ''k7'' (obj 102400 CHR ''7'') 102400 8,
      Insert ''k8'' (obj 102400 CHR ''8'') 102400 9, Insert ''k9'' (obj 102400 CHR ''9'') 102400 10,
      Insert ''k10'' (obj 102400 CHR ''a'') 102400 11]"

text \<open>
  Scenario E of the specification, up to the release: \<open>k0\<close> is inserted and a client
  gets a handle to it; ten more objects of 100 KiB follow, and the insert for \<open>k10\<close>
  evicts \<open>k0\<close> while the client holds its handle.
\<close>

definition scenario_e :: "op list" where
  "scenario_e = hd scenario_d100 # Get ''k0'' # tl scenario_d100"

section \<open>The proxy (the request rewriter of proxy.c)\<close>

text \<open>
  Modelled from the spec: \<open>MAXLINE\<close>, the size of the worker's request buffer and the
  bound given to every \<open>snprintf\<close> call; csapp.h, which defines it, is not among the
  sources (the specification says 8 KiB suffice; the CS:APP library has 8192).
\<close>

definition MAXLINE :: nat where
  "MAXLINE = 8192"

definition CRLF :: string where
  "CRLF = [CHR 0x0D, CHR 0x0A]"

definition header_user_agent :: string where
  "header_user_agent = ''Mozilla/5.0 (X11; Linux x86_64; rv:3.10.0) Gecko/20220411 Firefox/63.0.1''"

text \<open>\<open>header_t\<close> of http_parser.h: a name and a value.\<close>

type_synonym header = "string \<times> string"

text \<open>\<open>http_info\<close>. Its field \<open>method\<close> is \<open>method'\<close> here.\<close>

record http_info =
  method' :: string
  version :: string
  scheme :: string
  uri :: string
  host :: string
  port :: string
  path :: string

text \<open>Undefined behaviour in the worker: a write past the end of \<open>new_req\<close>, and a
  \<open>NULL\<close> or dangling entry pointer dereferenced in the cache.\<close>

datatype fault = Buffer_overrun | Bad_pointer

text \<open>
  \<open>len = snprintf(out, MAXLINE, ...); out += len;\<close> where the formatted text is \<open>s\<close>.
  The state is the offset of \<open>out\<close> in \<open>new_req\<close> and the string that \<open>new_req\<close>
  holds. \<open>snprintf\<close> stores at most \<open>MAXLINE - 1\<close> characters and a terminating zero,
  and returns the length of the whole of \<open>s\<close>; the buffer has \<open>MAXLINE\<close> bytes, so a
  write that ends beyond them is a fault.
\<close>

definition snprintf_out :: "nat \<times> string \<Rightarrow> string \<Rightarrow> fault + (nat \<times> string)" where
  "snprintf_out st s =
     (case st of (out, buf) \<Rightarrow>
        if out + min (length s) (MAXLINE - 1) + 1 > MAXLINE then Inl Buffer_overrun
        else Inr (out + length s, take out buf @ take (MAXLINE - 1) s))"

text \<open>The loop of \<open>construct_new_request\<close> over the headers that
  \<open>parser_retrieve_next_header\<close> yields, in the order it yields them.\<close>

fun copy_headers :: "header list \<Rightarrow> nat \<times> string \<Rightarrow> bool \<Rightarrow> fault + ((nat \<times> string) \<times> bool)" where
  "copy_headers [] st host_found = Inr (st, host_found)"
| "copy_headers (h # hs) st host_found =
     (if fst h = ''Connection'' \<or> fst h = ''Proxy-Connection'' \<or> fst h = ''User-Agent''
      then copy_headers hs st host_found
      else
        (case snprintf_out st (fst h @ '': '' @ snd h @ CRLF) of
           Inl f \<Rightarrow> Inl f
         | Inr st' \<Rightarrow> copy_headers hs st' (host_found \<or> fst h = ''Host'')))"

text \<open>\<open>construct_new_request\<close>: its only \<open>return\<close> statement is \<open>return true\<close>. The
  result is the value returned with the string left in \<open>new_req\<close>.\<close>

definition construct_new_request :: "header list \<Rightarrow> http_info \<Rightarrow> fault + (bool \<times> string)" where
  "construct_new_request hs info =
     (case snprintf_out (0, []) (''GET '' @ uri info @ '' HTTP/1.0'' @ CRLF) of
        Inl f \<Rightarrow> Inl f
      | Inr st1 \<Rightarrow>
          (case copy_headers hs st1 False of
             Inl f \<Rightarrow> Inl f
           | Inr (st2, host_found) \<Rightarrow>
               (case (if \<not> host_found
                      then snprintf_out st2 (''Host: '' @ host info @ '':'' @ port info @ CRLF)
                      else Inr st2) of
                  Inl f \<Rightarrow> Inl f
                | Inr st3 \<Rightarrow>
                    (case snprintf_out st3
                            (''Connection: close'' @ CRLF @ ''Proxy-Connection: close'' @ CRLF @
                             ''User-Agent: '' @ header_user_agent @ CRLF @ CRLF) of
                       Inl f \<Rightarrow> Inl f
                     | Inr st4 \<Rightarrow> Inr (True, snd st4)))))"

text \<open>
  The rewriter in the words of the specification: the headers of the outbound request,
  and the message \<open>GET <URI> HTTP/1.0\<close>, one line for each header, and an empty line.
\<close>

definition overridden :: "string \<Rightarrow> bool" where
  "overridden n \<longleftrightarrow> n = ''Connection'' \<or> n = ''Proxy-Connection'' \<or> n = ''User-Agent''"

definition outbound_headers :: "header list \<Rightarrow> http_info \<Rightarrow> header list" where
  "outbound_headers hs info =
     filter (\<lambda>h. \<not> overridden (fst h)) hs @
     (if ''Host'' \<in> fst ` set hs then [] else [(''Host'', host info @ '':'' @ port info)]) @
     [(''Connection'', ''close''), (''Proxy-Connection'', ''close''),
      (''User-Agent'', header_user_agent)]"

definition header_line :: "header \<Rightarrow> string" where
  "header_line h = fst h @ '': '' @ snd h @ CRLF"

definition rewrite_spec :: "header list \<Rightarrow> http_info \<Rightarrow> string" where
  "rewrite_spec hs info =
     ''GET '' @ uri info @ '' HTTP/1.0'' @ CRLF @
     concat (map header_line (outbound_headers hs info)) @ CRLF"

text \<open>A sequence of \<open>snprintf\<close> calls, each followed by \<open>out += len\<close>.\<close>

fun emit :: "string list \<Rightarrow> nat \<times> string \<Rightarrow> fault + (nat \<times> string)" where
  "emit [] st = Inr st"
| "emit (s # ss) st = (case snprintf_out st s of Inl f \<Rightarrow> Inl f | Inr st' \<Rightarrow> emit ss st')"

text \<open>The texts of the \<open>snprintf\<close> calls of \<open>construct_new_request\<close>, in order: all
  but the last, and the last.\<close>

definition pieces :: "header list \<Rightarrow> http_info \<Rightarrow> string list" where
  "pieces hs info =
     [''GET '' @ uri info @ '' HTTP/1.0'' @ CRLF] @
     map header_line (filter (\<lambda>h. \<not> overridden (fst h)) hs) @
     (if ''Host'' \<in> fst ` set hs then [] else [''Host: '' @ host info @ '':'' @ port info @ CRLF])"

definition fixed_tail :: string where
  "fixed_tail = ''Connection: close'' @ CRLF @ ''Proxy-Connection: close'' @ CRLF @
          ''User-Agent: '' @ header_user_agent @ CRLF @ CRLF"

text \<open>A request whose rewritten form does not fit: three headers of 3000 bytes each.\<close>

definition long_headers :: "header list" where
  "long_headers = [(''A'', replicate 3000 CHR ''a''), (''B'', replicate 3000 CHR ''b''),
                   (''C'', replicate 3000 CHR ''c'')]"

definition example_info :: http_info where
  "example_info = \<lparr>method' = ''GET'', version = ''1.1'', scheme = ''http'',
                    uri = ''http://h:80/a'', host = ''h'', port = ''80'', path = ''/a''\<rparr>"

section \<open>The proxy: reading the request, error replies, forwarding the response\<close>

text \<open>
  Modelled from the spec: the buffered I/O of csapp.c, which is not among the sources
  (\<section>6, buffered I/O contract). \<open>write_all\<close> writes all the bytes or returns a negative
  value; \<open>read_line\<close> returns a line with its newline, 0 at end of file, or a negative
  value; \<open>read_block\<close> returns up to \<open>n\<close> bytes, fewer only at end of file, or a
  negative value.

  A socket written to is the bytes its peer has received and the number of bytes the
  peer still accepts before the connection breaks (\<open>None\<close>: it never breaks).
\<close>

record sock =
  sent :: bytes
  room :: "nat option"

definition rio_writen :: "sock \<Rightarrow> bytes \<Rightarrow> bool \<times> sock" where
  "rio_writen s bs =
     (case room s of
        None \<Rightarrow> (True, s\<lparr>sent := sent s @ bs\<rparr>)
      | Some r \<Rightarrow>
          if length bs \<le> r then (True, s\<lparr>sent := sent s @ bs, room := Some (r - length bs)\<rparr>)
          else (False, s\<lparr>sent := sent s @ take r bs, room := Some 0\<rparr>))"

text \<open>A socket read in blocks is the bytes still to come, followed by end of file or,
  if \<open>broken\<close>, by a read error.\<close>

record source =
  pending :: bytes
  broken :: bool

datatype rio_read = Rio_fail | Rio_data bytes

definition rio_readnb :: "source \<Rightarrow> nat \<Rightarrow> rio_read \<times> source" where
  "rio_readnb h n =
     (if n \<le> length (pending h) then (Rio_data (take n (pending h)), h\<lparr>pending := drop n (pending h)\<rparr>)
      else if broken h then (Rio_fail, h)
      else (Rio_data (pending h), h\<lparr>pending := []\<rparr>))"

text \<open>What successive calls of \<open>rio_readlineb\<close> on the client socket return; after the
  last element of the list, end of file.\<close>

datatype rio_line = Rio_error | Rio_eof | Rio_line string

text \<open>
  Modelled from the spec: the line parser (http_parser.h declares it, the library is not
  among the sources). Its state is what \<open>parser_retrieve\<close> and
  \<open>parser_retrieve_next_header\<close> give: the fields parsed so far and the headers.
  \<open>parser_parse_line\<close> itself is a parameter \<open>pl\<close> of the functions that call it.
\<close>

datatype parser_state = REQUEST | HEADER | ERROR

datatype parser_value_type = METHOD | HOST | SCHEME | URI | PORT | PATH | HTTP_VERSION

record parser =
  parsed :: "parser_value_type \<Rightarrow> string option"
  headers :: "header list"

type_synonym parse_line = "parser \<Rightarrow> string \<Rightarrow> parser_state \<times> parser"

definition parser_new :: parser where
  "parser_new = \<lparr>parsed = (\<lambda>t. None), headers = []\<rparr>"

definition MAXBUF :: nat where
  "MAXBUF = 8192"

text \<open>\<open>%zu\<close>: a number in decimal.\<close>

function dec :: "nat \<Rightarrow> string" where
  "dec n = (if n < 10 then [char_of (48 + n)] else dec (n div 10) @ [char_of (48 + n mod 10)])"
  by pat_completeness auto
termination
  by (relation "measure id") auto

declare dec.simps [simp del]

text \<open>\<open>clienterror\<close>: the body, then the headers, each given up when it would not fit its
  buffer; the headers are written first, the body if that write succeeded.\<close>

definition error_body :: "string \<Rightarrow> string \<Rightarrow> string \<Rightarrow> string" where
  "error_body errnum shortmsg longmsg =
     ''<!DOCTYPE html>'' @ CRLF @
     ''<html>'' @ CRLF @
     ''<head><title>Error</title></head>'' @ CRLF @
     ''<body bgcolor='' @ [CHR 0x22] @ ''ffffff'' @ [CHR 0x22] @ ''>'' @ CRLF @
     ''<h1>'' @ errnum @ '': '' @ shortmsg @ ''</h1>'' @ CRLF @
     ''<p>'' @ longmsg @ ''</p>'' @ CRLF @
     ''<hr /><em>Proxy</em>'' @ CRLF @
     ''</body></html>'' @ CRLF"

definition error_head :: "string \<Rightarrow> string \<Rightarrow> nat \<Rightarrow> string" where
  "error_head errnum shortmsg bodylen =
     ''HTTP/1.0 '' @ errnum @ '' '' @ shortmsg @ CRLF @
     ''Content-Type: text/html'' @ CRLF @
     ''Content-Length: '' @ dec bodylen @ CRLF @ CRLF"

definition clienterror :: "sock \<Rightarrow> string \<Rightarrow> string \<Rightarrow> string \<Rightarrow> sock" where
  "clienterror fd errnum shortmsg longmsg =
     (let body = error_body errnum shortmsg longmsg; bodylen = length body in
      if bodylen \<ge> MAXBUF then fd
      else
        let buf = error_head errnum shortmsg bodylen; buflen = length buf in
        if buflen \<ge> MAXLINE then fd
        else
          (case rio_writen fd buf of
             (False, fd') \<Rightarrow> fd'
           | (True, fd') \<Rightarrow> snd (rio_writen fd' body)))"

text \<open>
  The loop of \<open>parse_http_request\<close> over the lines of the request. The result is
  \<open>None\<close> when \<open>rio_readlineb\<close> fails (the function then returns false), and otherwise
  the parser with \<open>n\<close>, the number of characters of the lines that were parsed. A line
  the parser rejects ends the loop before its length is added.
\<close>

fun read_request :: "parse_line \<Rightarrow> rio_line list \<Rightarrow> parser \<Rightarrow> nat \<Rightarrow> (parser \<times> nat) option" where
  "read_request pl [] p n = Some (p, n)"
| "read_request pl (Rio_error # rest) p n = None"
| "read_request pl (Rio_eof # rest) p n = Some (p, n)"
| "read_request pl (Rio_line buf # rest) p n =
     (if buf = CRLF then Some (p, n)
      else
        (case pl p buf of
           (ERROR, p') \<Rightarrow> Some (p', n)
         | (_, p') \<Rightarrow> read_request pl rest p' (n + length buf)))"

text \<open>\<open>parse_http_request\<close>: the request's fields when it returns true, \<open>None\<close> when
  it returns false; with the parser and the client socket as it leaves them.\<close>

definition parse_http_request ::
    "parse_line \<Rightarrow> rio_line list \<Rightarrow> parser \<Rightarrow> sock \<Rightarrow> http_info option \<times> parser \<times> sock" where
  "parse_http_request pl input p0 fd =
     (case read_request pl input p0 0 of
        None \<Rightarrow> (None, p0, fd)
      | Some (p, n) \<Rightarrow>
          if n = 0 then (None, p, fd)
          else
          (case parsed p HTTP_VERSION of
             None \<Rightarrow> (None, p, clienterror fd ''400'' ''Bad Request'' ''Cannot parse HTTP version'')
           | Some v \<Rightarrow>
          if \<not> (v = ''1.0'' \<or> v = ''1.1'')
          then (None, p, clienterror fd ''400'' ''Bad Request'' ''Wrong HTTP version'')
          else
          (case parsed p METHOD of
             None \<Rightarrow> (None, p, clienterror fd ''400'' ''Bad Request'' ''Cannot parse HTTP method'')
           | Some m \<Rightarrow>
          if m \<noteq> ''GET''
          then (None, p, clienterror fd ''501'' ''Not Implemented'' ''HTTP method not implemented'')
          else
          (case parsed p SCHEME of
             None \<Rightarrow> (None, p, clienterror fd ''400'' ''Bad Request'' ''Cannot parse HTTP scheme'')
           | Some s \<Rightarrow>
          if s \<noteq> ''http''
          then (None, p, clienterror fd ''501'' ''Not Implemented'' ''HTTP scheme not implemented'')
          else
          (case parsed p URI of
             None \<Rightarrow> (None, p, clienterror fd ''400'' ''Bad Request'' ''Cannot parse uri'')
           | Some u \<Rightarrow>
          (case parsed p HOST of
             None \<Rightarrow> (None, p, clienterror fd ''400'' ''Bad Request'' ''Cannot parse host'')
           | Some h \<Rightarrow>
          (case parsed p PORT of
             None \<Rightarrow> (None, p, clienterror fd ''400'' ''Bad Request'' ''Cannot parse port'')
           | Some po \<Rightarrow>
          (case parsed p PATH of
             None \<Rightarrow> (None, p, clienterror fd ''400'' ''Bad Request'' ''Cannot parse path'')
           | Some pa \<Rightarrow>
               (Some \<lparr>method' = m, version = v, scheme = s, uri = u, host = h, port = po,
                      path = pa\<rparr>, p, fd)))))))))"

text \<open>
  The loop of \<open>forward_http_response\<close>: a block of up to \<open>MAX_OBJECT_SIZE\<close> bytes is
  read into the start of \<open>buf\<close> and written to the client, until end of file. The result
  is whether it got there, the two sockets, \<open>buf\<close> and \<open>cache_size\<close> (a \<open>size_t\<close>).
\<close>

function forward_loop ::
    "source \<Rightarrow> sock \<Rightarrow> bytes \<Rightarrow> nat \<Rightarrow> bool \<times> source \<times> sock \<times> bytes \<times> nat" where
  "forward_loop h cl buf cache_size =
     (case rio_readnb h MAX_OBJECT_SIZE of
        (Rio_fail, h') \<Rightarrow> (False, h', cl, buf, cache_size)
      | (Rio_data d, h') \<Rightarrow>
          if d = [] then (True, h', cl, buf, cache_size)
          else
            (case rio_writen cl d of
               (False, cl') \<Rightarrow> (False, h', cl', d @ drop (length d) buf, cache_size)
             | (True, cl') \<Rightarrow>
                 forward_loop h' cl' (d @ drop (length d) buf)
                   ((cache_size + length d) mod SIZE_MOD)))"
  by pat_completeness auto
termination
  by (relation "measure (\<lambda>(h, cl, buf, cache_size). length (pending h))")
    (auto simp: rio_readnb_def MAX_OBJECT_SIZE_def split: if_splits)

declare forward_loop.simps [simp del]

text \<open>
  \<open>forward_http_response\<close>, with the state \<open>g\<close> of the global cache, the address \<open>a\<close>
  that \<open>Calloc\<close> would return, and \<open>buf0\<close>, what the uninitialised \<open>buf\<close> holds at
  first. \<open>None\<close> is undefined behaviour inside the cache.
\<close>

definition forward_http_response ::
    "source \<Rightarrow> sock \<Rightarrow> string \<Rightarrow> bytes \<Rightarrow> cache \<Rightarrow> addr \<Rightarrow> (bool \<times> source \<times> sock \<times> cache) option" where
  "forward_http_response host_fd client_fd cache_key buf0 g a =
     (case forward_loop host_fd client_fd buf0 0 of
        (False, h, cl, buf, cache_size) \<Rightarrow> Some (False, h, cl, g)
      | (True, h, cl, buf, cache_size) \<Rightarrow>
          if cache_size \<le> MAX_OBJECT_SIZE \<and> cache_size > 0 then
            (case cache_insert g cache_key buf cache_size a of
               None \<Rightarrow> None
             | Some (None, g') \<Rightarrow> Some (False, h, cl, g')
             | Some (Some e, g') \<Rightarrow> Some (True, h, cl, g'))
          else Some (True, h, cl, g))"

text \<open>
  \<open>serve\<close>, one worker running alone. \<open>detach_ok\<close> is whether
  \<open>pthread_detach\<close> succeeds: when it fails the worker returns at once, before it
  reads the request, and does not close the client's socket. \<open>connect\<close> stands for
  \<open>open_clientfd\<close>: for a host and a port, the socket to the origin (as written to and
  as read from) or \<open>None\<close> when the connection fails. The result is the client socket,
  whether the worker closed it, the socket to the origin as written to (\<open>None\<close> if
  there was no connection), and the cache. The paths out of the
  \<open>do { ... } while (false)\<close> all reach \<open>close(client.connfd)\<close>.
\<close>

record served =
  client :: sock
  client_closed :: bool
  upstream :: "sock option"
  g_cache :: cache

definition serve ::
    "bool \<Rightarrow> parse_line \<Rightarrow> rio_line list \<Rightarrow> sock \<Rightarrow>
     (string \<Rightarrow> string \<Rightarrow> (sock \<times> source) option) \<Rightarrow>
     cache \<Rightarrow> addr \<Rightarrow> bytes \<Rightarrow> fault + served" where
  "serve detach_ok pl input connfd connect g a buf0 =
     (if \<not> detach_ok
      then Inr \<lparr>client = connfd, client_closed = False, upstream = None, g_cache = g\<rparr>
      else
      case parse_http_request pl input parser_new connfd of
        (None, p, cl) \<Rightarrow>
          Inr \<lparr>client = cl, client_closed = True, upstream = None, g_cache = g\<rparr>
      | (Some info, p, cl) \<Rightarrow>
          (case cache_get g (uri info) of
             None \<Rightarrow> Inl Bad_pointer
           | Some (Some entry, g1) \<Rightarrow>
               (case mem g1 entry of
                  None \<Rightarrow> Inl Bad_pointer
                | Some x \<Rightarrow>
                    (case cache_entry_release g1 entry of
                       None \<Rightarrow> Inl Bad_pointer
                     | Some g2 \<Rightarrow>
                         Inr \<lparr>client = snd (rio_writen cl (take (e_size x) (e_val x))),
                              client_closed = True, upstream = None, g_cache = g2\<rparr>))
           | Some (None, g1) \<Rightarrow>
               (case construct_new_request (headers p) info of
                  Inl f \<Rightarrow> Inl f
                | Inr (False, new_req) \<Rightarrow>
                    Inr \<lparr>client = cl, client_closed = True, upstream = None, g_cache = g1\<rparr>
                | Inr (True, new_req) \<Rightarrow>
                    (case connect (host info) (port info) of
                       None \<Rightarrow>
                         Inr \<lparr>client = cl, client_closed = True, upstream = None, g_cache = g1\<rparr>
                     | Some (host_w, host_r) \<Rightarrow>
                         (case rio_writen host_w new_req of
                            (False, host_w') \<Rightarrow>
                              Inr \<lparr>client = cl, client_closed = True, upstream = Some host_w',
                                   g_cache = g1\<rparr>
                          | (True, host_w') \<Rightarrow>
                              (case forward_http_response host_r cl (uri info) buf0 g1 a of
                                 None \<Rightarrow> Inl Bad_pointer
                               | Some (ok, host_r', cl', g2) \<Rightarrow>
                                   Inr \<lparr>client = cl', client_closed = True,
                                        upstream = Some host_w', g_cache = g2\<rparr>))))))"

text \<open>\<open>replied fd fd' errnum shortmsg\<close>: from \<open>fd\<close> to \<open>fd'\<close> the client was sent
  a response that starts with the status line \<open>HTTP/1.0 errnum shortmsg\<close>.\<close>

definition status_line :: "string \<Rightarrow> string \<Rightarrow> string" where
  "status_line errnum shortmsg = ''HTTP/1.0 '' @ errnum @ '' '' @ shortmsg @ CRLF"

definition replied :: "sock \<Rightarrow> sock \<Rightarrow> string \<Rightarrow> string \<Rightarrow> bool" where
  "replied fd fd' errnum shortmsg \<longleftrightarrow>
     take (length (sent fd) + length (status_line errnum shortmsg)) (sent fd') =
       sent fd @ status_line errnum shortmsg"

definition version_ok :: "parser \<Rightarrow> bool" where
  "version_ok p \<longleftrightarrow> parsed p HTTP_VERSION = Some ''1.0'' \<or> parsed p HTTP_VERSION = Some ''1.1''"

text \<open>A parser for the examples: it knows three request lines for \<open>http://h/\<close>, two
  with the method \<open>POST\<close> and one with \<open>GET\<close>, and rejects every other line.\<close>

definition request_fields :: "string \<Rightarrow> string \<Rightarrow> parser_value_type \<Rightarrow> string option" where
  "request_fields m v =
     [METHOD \<mapsto> m, HTTP_VERSION \<mapsto> v, SCHEME \<mapsto> ''http'', URI \<mapsto> ''http://h/'',
      HOST \<mapsto> ''h'', PORT \<mapsto> ''80'', PATH \<mapsto> ''/'']"

definition example_parse :: parse_line where
  "example_parse p line =
     (if line = ''POST http://h/ HTTP/2.0'' @ CRLF
      then (REQUEST, p\<lparr>parsed := request_fields ''POST'' ''2.0''\<rparr>)
      else if line = ''POST http://h/ HTTP/1.0'' @ CRLF
      then (REQUEST, p\<lparr>parsed := request_fields ''POST'' ''1.0''\<rparr>)
      else if line = ''GET http://h/ HTTP/1.0'' @ CRLF
      then (REQUEST, p\<lparr>parsed := request_fields ''GET'' ''1.0''\<rparr>)
      else (ERROR, p))"

definition fresh_sock :: sock where
  "fresh_sock = \<lparr>sent = [], room = None\<rparr>"

section \<open>Proofs\<close>

lemma cache_create_empty: "mem cache_create = Map.empty"
  by (simp add: cache_create_def)

lemma ring_nth:
  "ring h xs \<longleftrightarrow> distinct xs \<and> (\<forall>i<length xs. linked h (xs ! i) (xs ! (Suc i mod length xs)))"
  by (auto simp: ring_def list_all2_conv_all_nth nth_rotate1)

lemma ring_Nil [simp]: "ring h []"
  by (simp add: ring_def)

lemma ring_rotate1:
  assumes "ring h xs"
  shows "ring h (rotate1 xs)"
proof -
  from assms have d: "distinct xs"
    and l: "\<And>i. i < length xs \<Longrightarrow> linked h (xs ! i) (xs ! (Suc i mod length xs))"
    by (auto simp: ring_nth)
  have "linked h (rotate1 xs ! i) (rotate1 xs ! (Suc i mod length xs))" if "i < length xs" for i
  proof -
    have "0 < length xs" using that by (cases xs) auto
    then have j: "Suc i mod length xs < length xs" by (rule mod_less_divisor)
    show ?thesis using l[OF j] that j by (simp add: nth_rotate1)
  qed
  then show ?thesis using d unfolding ring_nth by simp
qed

lemma ring_rotate: "ring h xs \<Longrightarrow> ring h (rotate n xs)"
  by (induction n) (auto intro: ring_rotate1)

lemma ring_insert_front:
  assumes r: "ring h xs" and ne: "xs \<noteq> []" and e: "e \<notin> set xs"
    and N: "\<And>a. map_option e_next (h' a) =
              (if a = e then Some (Some (hd xs)) else if a = last xs then Some (Some e)
               else map_option e_next (h a))"
    and P: "\<And>a. map_option e_prev (h' a) =
              (if a = e then Some (Some (last xs)) else if a = hd xs then Some (Some e)
               else map_option e_prev (h a))"
  shows "ring h' (e # xs)"
proof -
  from r have d: "distinct xs"
    and l: "\<And>i. i < length xs \<Longrightarrow> linked h (xs ! i) (xs ! (Suc i mod length xs))"
    by (auto simp: ring_nth)
  have n0: "0 < length xs" using ne by simp
  have "linked h' ((e # xs) ! i) ((e # xs) ! (Suc i mod length (e # xs)))"
    if i: "i < length (e # xs)" for i
  proof -
    consider "i = 0" | "0 < i" "i < length xs" | "i = length xs" using i by force
    then show ?thesis
    proof cases
      case 1
      then show ?thesis using n0 e ne by (auto simp: linked_def N P hd_conv_nth)
    next
      case 2
      then obtain j where j: "i = Suc j" by (cases i) auto
      with 2 have jl: "Suc j < length xs" by simp
      have a: "xs ! j \<noteq> last xs" using d jl by (simp add: last_conv_nth ne nth_eq_iff_index_eq)
      have b: "xs ! Suc j \<noteq> hd xs" using d jl by (simp add: hd_conv_nth ne nth_eq_iff_index_eq)
      have c: "xs ! j \<noteq> e" "xs ! Suc j \<noteq> e" using e jl by (auto simp: in_set_conv_nth)
      from l[of j] jl have "linked h (xs ! j) (xs ! Suc j)" by simp
      then show ?thesis using a b c jl j by (simp add: linked_def N P)
    next
      case 3
      have "last xs \<noteq> e" using e ne by auto
      then show ?thesis using 3 n0 by (simp add: linked_def N P last_conv_nth ne)
    qed
  qed
  then show ?thesis using d e unfolding ring_nth by simp
qed

lemma ring_remove_head:
  assumes r: "ring h (e # xs)" and ne: "xs \<noteq> []"
    and N: "\<And>a. a \<noteq> e \<Longrightarrow> map_option e_next (h' a) =
              (if a = last xs then Some (Some (hd xs)) else map_option e_next (h a))"
    and P: "\<And>a. a \<noteq> e \<Longrightarrow> map_option e_prev (h' a) =
              (if a = hd xs then Some (Some (last xs)) else map_option e_prev (h a))"
  shows "ring h' xs"
proof -
  from r have d: "distinct xs" and e: "e \<notin> set xs"
    and l: "\<And>i. i < Suc (length xs) \<Longrightarrow> linked h ((e # xs) ! i) ((e # xs) ! (Suc i mod Suc (length xs)))"
    by (auto simp: ring_nth)
  have n0: "0 < length xs" using ne by simp
  have "linked h' (xs ! i) (xs ! (Suc i mod length xs))" if i: "i < length xs" for i
  proof (cases "Suc i < length xs")
    case True
    have a: "xs ! i \<noteq> last xs" using d True by (simp add: last_conv_nth ne nth_eq_iff_index_eq)
    have b: "xs ! Suc i \<noteq> hd xs" using d True by (simp add: hd_conv_nth ne nth_eq_iff_index_eq)
    have c: "xs ! i \<noteq> e" "xs ! Suc i \<noteq> e" using e True by (auto simp: in_set_conv_nth)
    from l[of "Suc i"] True have "linked h (xs ! i) (xs ! Suc i)" by simp
    then show ?thesis using a b c True by (simp add: linked_def N P)
  next
    case False
    with i have il: "i = length xs - 1" by simp
    have c: "last xs \<noteq> e" "hd xs \<noteq> e" using e ne by auto
    show ?thesis using il n0 c by (simp add: linked_def N P last_conv_nth hd_conv_nth ne)
  qed
  then show ?thesis using d unfolding ring_nth by simp
qed

lemma ring_split: "ring h (ys @ e # zs) \<Longrightarrow> ring h (e # zs @ ys)"
  using ring_rotate[of h "ys @ e # zs" "length ys"] by (simp add: rotate_append)

lemma ring_head_links:
  assumes "ring h (e # xs)"
  shows "map_option e_next (h e) = Some (Some (hd (xs @ [e])))"
    and "map_option e_prev (h e) = Some (Some (last (e # xs)))"
proof -
  from assms have l: "\<And>i. i < Suc (length xs) \<Longrightarrow>
      linked h ((e # xs) ! i) ((e # xs) ! (Suc i mod Suc (length xs)))"
    by (auto simp: ring_nth)
  from l[of 0] show "map_option e_next (h e) = Some (Some (hd (xs @ [e])))"
    by (cases xs) (auto simp: linked_def)
  from l[of "length xs"] show "map_option e_prev (h e) = Some (Some (last (e # xs)))"
    by (cases xs rule: rev_cases) (auto simp: linked_def nth_append simp del: nth_Cons_Suc simp flip: append_Cons)
qed

lemma ring_remove:
  assumes r: "ring h (ys @ e # zs)" and ne: "zs @ ys \<noteq> []"
    and N: "\<And>a. a \<noteq> e \<Longrightarrow> map_option e_next (h' a) =
              (if a = last (zs @ ys) then Some (Some (hd (zs @ ys))) else map_option e_next (h a))"
    and P: "\<And>a. a \<noteq> e \<Longrightarrow> map_option e_prev (h' a) =
              (if a = hd (zs @ ys) then Some (Some (last (zs @ ys))) else map_option e_prev (h a))"
  shows "ring h' (ys @ zs)"
proof -
  have "ring h' (zs @ ys)"
    using ring_split[OF r] ne N P by (rule ring_remove_head)
  then have "ring h' (rotate (length zs) (zs @ ys))" by (rule ring_rotate)
  then show ?thesis by (simp add: rotate_append)
qed

lemma ring_dom: "ring h xs \<Longrightarrow> a \<in> set xs \<Longrightarrow> h a \<noteq> None"
  by (auto simp: ring_nth in_set_conv_nth linked_def)

lemma ring_cong:
  assumes "\<And>a. a \<in> set xs \<Longrightarrow> map_option e_next (h' a) = map_option e_next (h a)"
    and "\<And>a. a \<in> set xs \<Longrightarrow> map_option e_prev (h' a) = map_option e_prev (h a)"
    and "ring h xs"
  shows "ring h' xs"
proof -
  have "linked h' (xs ! i) (xs ! (Suc i mod length xs))"
    if "i < length xs" "linked h (xs ! i) (xs ! (Suc i mod length xs))" for i
  proof -
    have "0 < length xs" using that by (cases xs) auto
    then have "Suc i mod length xs < length xs" by (rule mod_less_divisor)
    then have "xs ! (Suc i mod length xs) \<in> set xs" "xs ! i \<in> set xs" using that by auto
    then show ?thesis using that(2) assms(1,2) by (simp add: linked_def)
  qed
  then show ?thesis using assms(3) unfolding ring_nth by blast
qed

lemma data_eqD:
  assumes "map_option data (mem c' a) = map_option data (mem c a)"
  shows "size_of c' a = size_of c a" and "key_of c' a = key_of c a"
    and "val_of c' a = val_of c a" and "ref_of c' a = ref_of c a"
    and "content c' a = content c a" and "mem c' a = None \<longleftrightarrow> mem c a = None"
  using assms
  by (cases "mem c a"; cases "mem c' a";
      simp add: data_def size_of_def key_of_def val_of_def ref_of_def content_def)+

lemma total_cong:
  "(\<And>a. a \<in> set xs \<Longrightarrow> map_option data (mem c' a) = map_option data (mem c a)) \<Longrightarrow>
   total c' xs = total c xs"
  unfolding total_def
  by (rule arg_cong[where f = sum_list], rule map_cong) (auto dest: data_eqD(1))

lemma ring_next:
  assumes "ring h (ys @ e # zs)"
  shows "map_option e_next (h e) = Some (Some (hd (zs @ ys @ [e])))"
  using ring_head_links(1)[OF ring_split[OF assms]] by simp

lemma ring_prev:
  assumes "ring h (ys @ e # zs)"
  shows "map_option e_prev (h e) = Some (Some (last (e # zs @ ys)))"
  using ring_head_links(2)[OF ring_split[OF assms]] by simp

lemma find_loop_ok:
  assumes "ring (mem c) (ys @ a # zs)" and "c_head c = Some (hd (ys @ a # zs))"
  shows "find_loop c k a = Some (List.find (\<lambda>b. key_of c b = k) (a # zs))"
  using assms
proof (induction zs arbitrary: ys a)
  case Nil
  from ring_next[OF Nil(1)] obtain x where x: "mem c a = Some x" "e_next x = Some (hd (ys @ [a]))"
    by auto
  show ?case using x Nil(2)
    by (subst find_loop.simps) (simp add: key_of_def)
next
  case (Cons z zs)
  from ring_next[OF Cons(2)] obtain x where x: "mem c a = Some x" "e_next x = Some z"
    by auto
  have d: "distinct (ys @ a # z # zs)" using Cons(2) by (simp add: ring_def)
  then have nz: "hd (ys @ a # z # zs) \<noteq> z" by (cases ys) auto
  have "find_loop c k z = Some (List.find (\<lambda>b. key_of c b = k) (z # zs))"
    using Cons.IH[of "ys @ [a]" z] Cons(2,3) by (cases ys) auto
  then show ?case using x nz Cons(3)
    by (subst find_loop.simps) (simp add: key_of_def)
qed

lemma find_ok:
  assumes "lru c xs"
  shows "find c k = Some (List.find (\<lambda>b. key_of c b = k) xs)"
proof (cases xs)
  case Nil
  then show ?thesis using assms by (simp add: find_def lru_def)
next
  case (Cons a zs)
  then show ?thesis using assms find_loop_ok[of c "[]" a zs k]
    by (simp add: find_def lru_def)
qed

lemma walk_ok:
  assumes "ring (mem c) (ys @ a # zs)" and "c_head c = Some (hd (ys @ a # zs))"
  shows "walk c a = Some (a # zs)"
  using assms
proof (induction zs arbitrary: ys a)
  case Nil
  from ring_next[OF Nil(1)] obtain x where x: "mem c a = Some x" "e_next x = Some (hd (ys @ [a]))"
    by auto
  show ?case using x Nil(2)
    by (subst walk.simps) simp
next
  case (Cons z zs)
  from ring_next[OF Cons(2)] obtain x where x: "mem c a = Some x" "e_next x = Some z"
    by auto
  have d: "distinct (ys @ a # z # zs)" using Cons(2) by (simp add: ring_def)
  then have nz: "hd (ys @ a # z # zs) \<noteq> z" by (cases ys) auto
  have "walk c z = Some (z # zs)"
    using Cons.IH[of "ys @ [a]" z] Cons(2,3) by (cases ys) auto
  then show ?case using x nz Cons(3)
    by (subst walk.simps) simp
qed

lemma lru_entries_ok:
  assumes "lru c xs"
  shows "lru_entries c = Some xs"
proof (cases xs)
  case Nil
  then show ?thesis using assms by (simp add: lru_entries_def lru_def)
next
  case (Cons a zs)
  then show ?thesis using assms walk_ok[of c "[]" a zs]
    by (simp add: lru_entries_def lru_def)
qed

lemma size_sub_wrap: "s \<le> t \<Longrightarrow> t < SIZE_MOD \<Longrightarrow> (t + SIZE_MOD - s) mod SIZE_MOD = t - s"
proof -
  assume a: "s \<le> t" "t < SIZE_MOD"
  then have "t + SIZE_MOD - s = (t - s) + SIZE_MOD" by simp
  moreover have "t - s < SIZE_MOD" using a by simp
  ultimately show ?thesis by (simp only: mod_add_self2 mod_less)
qed

lemma total_append [simp]: "total c (xs @ ys) = total c xs + total c ys"
  by (simp add: total_def)

lemma total_Cons [simp]: "total c (x # xs) = size_of c x + total c xs"
  by (simp add: total_def)

lemma total_Nil [simp]: "total c [] = 0"
  by (simp add: total_def)

lemma remove_entry_unlink:
  assumes x: "mem c e = Some x" "e_next x = Some n" "e_prev x = Some p"
    and ne: "n \<noteq> e" "p \<noteq> e" and dom: "mem c n \<noteq> None" "mem c p \<noteq> None"
  shows "\<exists>c'. remove_entry c e = Some c' \<and>
           c_head c' = (if c_head c = Some e then Some n else c_head c) \<and>
           c_size c' = (c_size c + SIZE_MOD - e_size x) mod SIZE_MOD \<and>
           (\<forall>a. a \<noteq> e \<longrightarrow> map_option e_next (mem c' a) =
                 (if a = p then Some (Some n) else map_option e_next (mem c a))) \<and>
           (\<forall>a. a \<noteq> e \<longrightarrow> map_option e_prev (mem c' a) =
                 (if a = n then Some (Some p) else map_option e_prev (mem c a))) \<and>
           (\<forall>a. map_option data (mem c' a) = map_option data (mem c a))"
  using assms by (auto simp: remove_entry_def wr_def data_def)

lemma remove_entry_single:
  assumes x: "mem c e = Some x" "e_next x = Some e"
  shows "\<exists>c'. remove_entry c e = Some c' \<and>
           c_head c' = None \<and>
           c_size c' = (c_size c + SIZE_MOD - e_size x) mod SIZE_MOD \<and>
           (\<forall>a. map_option data (mem c' a) = map_option data (mem c a))"
  using assms by (auto simp: remove_entry_def wr_def data_def)

lemma remove_entry_ok:
  assumes L: "lru c (ys @ e # zs)"
  shows "\<exists>c'. remove_entry c e = Some c' \<and> lru c' (ys @ zs) \<and>
           (\<forall>a. map_option data (mem c' a) = map_option data (mem c a))"
proof -
  from L have r: "ring (mem c) (ys @ e # zs)"
    and hd: "c_head c = Some (hd (ys @ e # zs))"
    and sz: "c_size c = total c (ys @ e # zs)" "c_size c < SIZE_MOD"
    by (cases ys; simp add: lru_def)+
  from ring_next[OF r] ring_prev[OF r] obtain x where x: "mem c e = Some x"
    "e_next x = Some (hd (zs @ ys @ [e]))" "e_prev x = Some (last (e # zs @ ys))"
    by auto
  have szx: "size_of c e = e_size x" using x by (simp add: size_of_def)
  have d: "distinct (ys @ e # zs)" using r by (simp add: ring_def)
  have le: "e_size x \<le> c_size c" using sz szx by simp
  show ?thesis
  proof (cases "zs @ ys = []")
    case True
    with x have "e_next x = Some e" by simp
    from remove_entry_single[OF x(1) this] obtain c' where c': "remove_entry c e = Some c'"
      "c_head c' = None" "c_size c' = (c_size c + SIZE_MOD - e_size x) mod SIZE_MOD"
      "\<And>a. map_option data (mem c' a) = map_option data (mem c a)"
      by blast
    have "c_size c' = c_size c - e_size x" unfolding c'(3) by (rule size_sub_wrap[OF le sz(2)])
    then have "c_size c' = 0" using sz True szx by simp
    then have "lru c' (ys @ zs)" using True c'(2) by (simp add: lru_def SIZE_MOD_def)
    then show ?thesis using c' by blast
  next
    case False
    let ?n = "hd (zs @ ys)" and ?p = "last (zs @ ys)"
    have "hd (zs @ ys @ [e]) = ?n" using False by (cases zs; cases ys) auto
    moreover have "last (e # zs @ ys) = ?p" using False by auto
    ultimately have n: "e_next x = Some ?n" and p: "e_prev x = Some ?p" using x by auto
    have mem: "?n \<in> set (zs @ ys)" "?p \<in> set (zs @ ys)"
      using False hd_in_set[of "zs @ ys"] last_in_set[of "zs @ ys"] by blast+
    then have ne: "?n \<noteq> e" "?p \<noteq> e" using d by auto
    have dom: "mem c ?n \<noteq> None" "mem c ?p \<noteq> None"
      using mem ring_dom[OF r] by auto
    from remove_entry_unlink[OF x(1) n p ne dom] obtain c' where c': "remove_entry c e = Some c'"
      "c_head c' = (if c_head c = Some e then Some ?n else c_head c)"
      "c_size c' = (c_size c + SIZE_MOD - e_size x) mod SIZE_MOD"
      "\<And>a. a \<noteq> e \<Longrightarrow> map_option e_next (mem c' a) =
                 (if a = ?p then Some (Some ?n) else map_option e_next (mem c a))"
      "\<And>a. a \<noteq> e \<Longrightarrow> map_option e_prev (mem c' a) =
                 (if a = ?n then Some (Some ?p) else map_option e_prev (mem c a))"
      "\<And>a. map_option data (mem c' a) = map_option data (mem c a)"
      by blast
    have ring': "ring (mem c') (ys @ zs)"
      using r False c'(4,5) by (rule ring_remove)
    have tot: "total c' (ys @ zs) = total c (ys @ zs)"
      using c'(6) by (rule total_cong)
    have "c_size c' = c_size c - e_size x" unfolding c'(3) by (rule size_sub_wrap[OF le sz(2)])
    then have s': "c_size c' = total c' (ys @ zs)" "c_size c' < SIZE_MOD"
      using sz szx tot by auto
    have h': "c_head c' = (case ys @ zs of [] \<Rightarrow> None | a # _ \<Rightarrow> Some a)"
    proof (cases ys)
      case Nil
      then show ?thesis using c'(2) hd False by (cases zs) auto
    next
      case (Cons y ys')
      then have "y \<noteq> e" using d by auto
      then show ?thesis using c'(2) hd Cons by auto
    qed
    show ?thesis using c'(1,6) ring' s' h' by (auto simp: lru_def)
  qed
qed

lemma insert_front_link:
  assumes x: "mem c e = Some x" and h: "c_head c = Some hh" "mem c hh = Some xh"
    "e_prev xh = Some p" and dom: "mem c p \<noteq> None" and ne: "hh \<noteq> e" "p \<noteq> e"
  shows "\<exists>c'. insert_front c e = Some c' \<and>
           c_head c' = Some e \<and>
           c_size c' = (c_size c + e_size x) mod SIZE_MOD \<and>
           (\<forall>a. map_option e_next (mem c' a) =
                 (if a = e then Some (Some hh) else if a = p then Some (Some e)
                  else map_option e_next (mem c a))) \<and>
           (\<forall>a. map_option e_prev (mem c' a) =
                 (if a = e then Some (Some p) else if a = hh then Some (Some e)
                  else map_option e_prev (mem c a))) \<and>
           (\<forall>a. map_option data (mem c' a) = map_option data (mem c a))"
  using assms by (auto simp: insert_front_def wr_def data_def)

lemma insert_front_first:
  assumes x: "mem c e = Some x" and h: "c_head c = None"
  shows "\<exists>c'. insert_front c e = Some c' \<and>
           c_head c' = Some e \<and>
           c_size c' = (c_size c + e_size x) mod SIZE_MOD \<and>
           map_option e_next (mem c' e) = Some (Some e) \<and>
           map_option e_prev (mem c' e) = Some (Some e) \<and>
           (\<forall>a. map_option data (mem c' a) = map_option data (mem c a))"
  using assms by (auto simp: insert_front_def wr_def data_def)

lemma insert_front_ok:
  assumes L: "lru c xs" and e: "e \<notin> set xs" and x: "mem c e = Some x"
    and b: "c_size c + e_size x < SIZE_MOD"
  shows "\<exists>c'. insert_front c e = Some c' \<and> lru c' (e # xs) \<and>
           (\<forall>a. map_option data (mem c' a) = map_option data (mem c a))"
proof (cases xs)
  case Nil
  then have "c_head c = None" using L by (simp add: lru_def)
  from insert_front_first[OF x this] obtain c' where c': "insert_front c e = Some c'"
    "c_head c' = Some e" "c_size c' = (c_size c + e_size x) mod SIZE_MOD"
    "map_option e_next (mem c' e) = Some (Some e)" "map_option e_prev (mem c' e) = Some (Some e)"
    "\<And>a. map_option data (mem c' a) = map_option data (mem c a)"
    by blast
  have "ring (mem c') [e]" using c'(4,5) by (simp add: ring_def linked_def)
  moreover have "size_of c' e = e_size x" using data_eqD(1)[OF c'(6)[of e]] x by (simp add: size_of_def)
  moreover have "c_size c = 0" using L Nil by (simp add: lru_def)
  ultimately have "lru c' (e # xs)" using Nil c'(2,3) b by (simp add: lru_def)
  then show ?thesis using c' by blast
next
  case (Cons y ys)
  from L have r: "ring (mem c) xs" and hd: "c_head c = Some (hd xs)"
    and sz: "c_size c = total c xs"
    using Cons by (simp_all add: lru_def)
  have r0: "ring (mem c) ([] @ y # ys)" using r Cons by simp
  from ring_prev[OF r0] obtain xh where xh: "mem c (hd xs) = Some xh" "e_prev xh = Some (last xs)"
    using Cons by auto
  have ne: "xs \<noteq> []" using Cons by simp
  then have mem: "hd xs \<in> set xs" "last xs \<in> set xs" by auto
  then have nee: "hd xs \<noteq> e" "last xs \<noteq> e" using e by auto
  have dom: "mem c (last xs) \<noteq> None" using mem ring_dom[OF r] by auto
  from insert_front_link[OF x hd xh dom nee] obtain c' where c': "insert_front c e = Some c'"
    "c_head c' = Some e" "c_size c' = (c_size c + e_size x) mod SIZE_MOD"
    "\<And>a. map_option e_next (mem c' a) =
                 (if a = e then Some (Some (hd xs)) else if a = last xs then Some (Some e)
                  else map_option e_next (mem c a))"
    "\<And>a. map_option e_prev (mem c' a) =
                 (if a = e then Some (Some (last xs)) else if a = hd xs then Some (Some e)
                  else map_option e_prev (mem c a))"
    "\<And>a. map_option data (mem c' a) = map_option data (mem c a)"
    by blast
  have ring': "ring (mem c') (e # xs)"
    using r ne e c'(4,5) by (rule ring_insert_front)
  have tot: "total c' (e # xs) = total c (e # xs)"
    using c'(6) by (rule total_cong)
  have "size_of c e = e_size x" using x by (simp add: size_of_def)
  then have "c_size c' = total c' (e # xs)" "c_size c' < SIZE_MOD"
    using c'(3) b sz tot by auto
  then show ?thesis using c'(1,2,6) ring' by (auto simp: lru_def)
qed

lemma total_size_cong:
  "(\<And>a. a \<in> set xs \<Longrightarrow> size_of c' a = size_of c a) \<Longrightarrow> total c' xs = total c xs"
  unfolding total_def by (rule arg_cong[where f = sum_list], rule map_cong) auto

lemma lru_cong:
  assumes "lru c xs" and "c_head c' = c_head c" and "c_size c' = c_size c"
    and n: "\<And>a. a \<in> set xs \<Longrightarrow> map_option e_next (mem c' a) = map_option e_next (mem c a)"
    and p: "\<And>a. a \<in> set xs \<Longrightarrow> map_option e_prev (mem c' a) = map_option e_prev (mem c a)"
    and s: "\<And>a. a \<in> set xs \<Longrightarrow> map_option e_size (mem c' a) = map_option e_size (mem c a)"
  shows "lru c' xs"
proof -
  have "ring (mem c) xs" using assms(1) by (simp add: lru_def)
  with n p have r: "ring (mem c') xs" by (rule ring_cong)
  have "size_of c' a = size_of c a" if "a \<in> set xs" for a
    using s[OF that] by (cases "mem c a"; cases "mem c' a") (auto simp: size_of_def)
  then have "total c' xs = total c xs" by (rule total_size_cong)
  then show ?thesis using assms(1,2,3) r by (simp add: lru_def)
qed

lemma refs_ok_cong:
  assumes "refs_ok c xs hs" and "set xs' = set xs"
    and "\<And>a. map_option data (mem c' a) = map_option data (mem c a)"
  shows "refs_ok c' xs' hs"
  unfolding refs_ok_def
proof
  fix a
  from assms(1) have *: "case mem c a of None \<Rightarrow> a \<notin> set xs \<and> a \<notin> set hs
      | Some x \<Rightarrow> e_ref x = int (count_list hs a) + (if a \<in> set xs then 1 else 0) \<and> 0 < e_ref x"
    by (simp add: refs_ok_def)
  show "case mem c' a of None \<Rightarrow> a \<notin> set xs' \<and> a \<notin> set hs
      | Some x \<Rightarrow> e_ref x = int (count_list hs a) + (if a \<in> set xs' then 1 else 0) \<and> 0 < e_ref x"
    using * assms(2) assms(3)[of a]
    by (cases "mem c a"; cases "mem c' a") (auto simp: data_def)
qed

lemma promote_ok:
  assumes L: "lru c xs" and e: "e \<in> set xs"
  shows "\<exists>c1 c2. remove_entry c e = Some c1 \<and> insert_front c1 e = Some c2 \<and>
           lru c2 (e # remove1 e xs) \<and> c_size c2 = c_size c \<and>
           (\<forall>a. map_option data (mem c2 a) = map_option data (mem c a))"
proof -
  from e obtain ys zs where xs: "xs = ys @ e # zs" by (auto dest: split_list)
  have d: "distinct xs" using L by (simp add: lru_def ring_def)
  then have r1: "remove1 e xs = ys @ zs" using xs by (simp add: remove1_append)
  from remove_entry_ok[of c ys e zs] L xs obtain c1 where c1: "remove_entry c e = Some c1"
    "lru c1 (ys @ zs)" "\<And>a. map_option data (mem c1 a) = map_option data (mem c a)"
    by auto
  have "mem c e \<noteq> None" using L e by (auto simp: lru_def dest: ring_dom)
  then obtain x1 where x1: "mem c1 e = Some x1" using data_eqD(6)[OF c1(3)[of e]] by auto
  have s1: "e_size x1 = size_of c e" using data_eqD(1)[OF c1(3)[of e]] x1 by (simp add: size_of_def)
  have "total c1 (ys @ zs) = total c (ys @ zs)" using c1(3) by (rule total_cong)
  then have sz: "c_size c1 + e_size x1 = c_size c" using L c1(2) xs s1 by (simp add: lru_def)
  then have b: "c_size c1 + e_size x1 < SIZE_MOD" using L by (simp add: lru_def)
  have ne: "e \<notin> set (ys @ zs)" using d xs by auto
  from insert_front_ok[OF c1(2) ne x1 b] obtain c2 where c2: "insert_front c1 e = Some c2"
    "lru c2 (e # ys @ zs)" "\<And>a. map_option data (mem c2 a) = map_option data (mem c1 a)"
    by auto
  have dat: "map_option data (mem c2 a) = map_option data (mem c a)" for a
    using c1(3)[of a] c2(3)[of a] by simp
  have "total c2 xs = total c xs" using dat by (rule total_cong)
  moreover have "c_size c2 = total c2 xs" using c2(2) xs by (simp add: lru_def)
  ultimately have "c_size c2 = c_size c" using L by (simp add: lru_def)
  then show ?thesis using c1(1) c2(1,2) dat r1 by auto
qed

lemma find_SomeD:
  "List.find P xs = Some e \<Longrightarrow> e \<in> set xs \<and> P e"
  by (auto simp: find_Some_iff)

lemma wf_promote:
  assumes W: "wf (c, hs) xs" and e: "e \<in> set xs"
    and L: "lru c2 (e # remove1 e xs)"
    and dat: "\<And>a. map_option data (mem c2 a) = map_option data (mem c a)"
  shows "wf (c2, hs) (e # remove1 e xs)"
proof -
  have d: "distinct xs" using W by (simp add: wf_def lru_def ring_def)
  have s: "set (e # remove1 e xs) = set xs" using e d by auto
  have k: "key_of c2 a = key_of c a" for a using dat[of a] by (rule data_eqD)
  have "distinct (map (key_of c) (e # remove1 e xs))"
    using W e d by (auto simp: wf_def distinct_map inj_on_def)
  then have "distinct (map (key_of c2) (e # remove1 e xs))"
    using k by (simp add: map_idI cong: map_cong)
  moreover have "refs_ok c xs hs" using W by (simp add: wf_def)
  then have "refs_ok c2 (e # remove1 e xs) hs" using s dat by (rule refs_ok_cong)
  ultimately show ?thesis using L by (simp add: wf_def)
qed

lemma evict_entry_unref: "evict_entry c e = do { c1 \<leftarrow> remove_entry c e; unref c1 e }"
  by (simp add: evict_entry_def unref_def)

lemma release_unref: "cache_entry_release c e = unref c e"
  by (simp add: cache_entry_release_def unref_def)

lemma count_list_remove1:
  "count_list (remove1 e hs) a = (if a = e \<and> e \<in> set hs then count_list hs a - 1 else count_list hs a)"
  by (induction hs) auto

lemma count_list_zero: "count_list hs a = 0 \<longleftrightarrow> a \<notin> set hs"
  by (induction hs) auto

lemma count_list_pos: "a \<in> set hs \<Longrightarrow> 0 < count_list hs a"
  by (induction hs) auto

lemma refs_okD:
  assumes "refs_ok c xs hs"
  shows "mem c a = None \<Longrightarrow> a \<notin> set xs \<and> a \<notin> set hs"
    and "mem c a = Some x \<Longrightarrow> e_ref x = int (count_list hs a) + (if a \<in> set xs then 1 else 0) \<and> 0 < e_ref x"
  using assms[unfolded refs_ok_def, rule_format, of a] by auto

lemma refs_extraD:
  assumes "refs_extra c xs hs e"
  shows "mem c a = None \<Longrightarrow> a \<notin> set xs \<and> a \<notin> set hs \<and> a \<noteq> e"
    and "mem c a = Some x \<Longrightarrow> e_ref x = int (count_list hs a) + (if a \<in> set xs then 1 else 0) + (if a = e then 1 else 0) \<and> 0 < e_ref x"
  using assms[unfolded refs_extra_def, rule_format, of a] by auto

lemma unref_ok:
  assumes L: "lru c xs" and K: "distinct (map (key_of c) xs)" and R: "refs_extra c xs hs e"
  shows "\<exists>c'. unref c e = Some c' \<and> wf (c', hs) xs \<and> c_head c' = c_head c \<and> c_size c' = c_size c \<and>
           (\<forall>a. a \<noteq> e \<longrightarrow> mem c' a = mem c a) \<and>
           (mem c' e = None \<longleftrightarrow> ref_of c e = 1) \<and>
           (mem c' e \<noteq> None \<longrightarrow> content c' e = content c e \<and> ref_of c' e = ref_of c e - 1)"
proof -
  from refs_extraD(1)[OF R, of e] obtain x where x: "mem c e = Some x" by (cases "mem c e") auto
  from refs_extraD(2)[OF R x]
  have rx: "e_ref x = int (count_list hs e) + (if e \<in> set xs then 1 else 0) + 1" by simp
  let ?x' = "x\<lparr>e_ref := e_ref x - 1\<rparr>"
  let ?c1 = "c\<lparr>mem := (mem c)(e \<mapsto> ?x')\<rparr>"
  have key1: "key_of ?c1 = key_of c" using x by (auto simp: key_of_def fun_eq_iff)
  show ?thesis
  proof (cases "e_ref x = 1")
    case True
    let ?c' = "?c1\<lparr>mem := (mem ?c1)(e := None)\<rparr>"
    have u: "unref c e = Some ?c'" using x True by (simp add: unref_def wr_def free_entry_def)
    from True rx have ne: "e \<notin> set xs" "e \<notin> set hs"
      by (auto simp: count_list_zero split: if_splits)
    have "lru ?c' xs" using L by (rule lru_cong) (use ne in auto)
    moreover have "key_of ?c' a = key_of c a" if "a \<in> set xs" for a
      using that ne by (auto simp: key_of_def)
    then have me: "map (key_of ?c') xs = map (key_of c) xs" by (intro map_cong) auto
    have "distinct (map (key_of ?c') xs)" unfolding me by (rule K)
    moreover have "refs_ok ?c' xs hs"
      unfolding refs_ok_def
    proof
      fix a
      show "case mem ?c' a of None \<Rightarrow> a \<notin> set xs \<and> a \<notin> set hs
        | Some y \<Rightarrow> e_ref y = int (count_list hs a) + (if a \<in> set xs then 1 else 0) \<and> 0 < e_ref y"
        using refs_extraD[OF R, of a] ne
        by (cases "mem c a") (auto simp: count_list_zero)
    qed
    ultimately have "wf (?c', hs) xs" by (simp add: wf_def)
    then show ?thesis using u x True by (simp add: ref_of_def)
  next
    case False
    have u: "unref c e = Some ?c1" using x False by (simp add: unref_def wr_def free_entry_def)
    have "lru ?c1 xs" using L by (rule lru_cong) (use x in auto)
    moreover have "refs_ok ?c1 xs hs"
      unfolding refs_ok_def
    proof
      fix a
      show "case mem ?c1 a of None \<Rightarrow> a \<notin> set xs \<and> a \<notin> set hs
        | Some y \<Rightarrow> e_ref y = int (count_list hs a) + (if a \<in> set xs then 1 else 0) \<and> 0 < e_ref y"
        using refs_extraD[OF R, of a] False rx x
        by (cases "mem c a") (auto simp: count_list_zero count_list_pos)
    qed
    ultimately have "wf (?c1, hs) xs" using K key1 by (simp add: wf_def)
    then show ?thesis using u x False by (simp add: ref_of_def content_def)
  qed
qed

lemma wfD:
  assumes "wf (c, hs) xs"
  shows "lru c xs" and "distinct (map (key_of c) xs)" and "refs_ok c xs hs" and "distinct xs"
  using assms by (auto simp: wf_def lru_def ring_def)

lemma release_ok:
  assumes W: "wf (c, hs) xs" and e: "e \<in> set hs"
  shows "\<exists>c'. cache_entry_release c e = Some c' \<and> wf (c', remove1 e hs) xs \<and>
           c_head c' = c_head c \<and> c_size c' = c_size c \<and>
           (\<forall>a. a \<noteq> e \<longrightarrow> mem c' a = mem c a) \<and>
           (mem c' e = None \<longleftrightarrow> ref_of c e = 1) \<and>
           (mem c' e \<noteq> None \<longrightarrow> content c' e = content c e \<and> ref_of c' e = ref_of c e - 1)"
proof -
  have "refs_extra c xs (remove1 e hs) e"
    unfolding refs_extra_def
  proof
    fix a
    show "case mem c a of None \<Rightarrow> a \<notin> set xs \<and> a \<notin> set (remove1 e hs) \<and> a \<noteq> e
        | Some x \<Rightarrow> e_ref x = int (count_list (remove1 e hs) a) + (if a \<in> set xs then 1 else 0)
                                + (if a = e then 1 else 0) \<and> 0 < e_ref x"
      using refs_okD[OF wfD(3)[OF W], of a] e count_list_pos[OF e] notin_set_remove1[of a hs e]
      by (cases "mem c a") (auto simp: count_list_remove1)
  qed
  from unref_ok[OF wfD(1,2)[OF W] this] show ?thesis by (simp add: release_unref)
qed

lemma evict_entry_ok:
  assumes W: "wf (c, hs) (xs @ [e])"
  shows "\<exists>c'. evict_entry c e = Some c' \<and> wf (c', hs) xs \<and>
           c_size c' = c_size c - size_of c e \<and>
           (\<forall>a. a \<noteq> e \<longrightarrow> map_option data (mem c' a) = map_option data (mem c a)) \<and>
           (mem c' e = None \<longleftrightarrow> ref_of c e = 1) \<and>
           (mem c' e \<noteq> None \<longrightarrow> content c' e = content c e \<and> ref_of c' e = ref_of c e - 1)"
proof -
  from remove_entry_ok[of c xs e "[]"] wfD(1)[OF W]
  obtain c1 where c1: "remove_entry c e = Some c1" "lru c1 xs"
    "\<And>a. map_option data (mem c1 a) = map_option data (mem c a)"
    by auto
  have ne: "e \<notin> set xs" using wfD(4)[OF W] by simp
  have k1: "key_of c1 = key_of c" using data_eqD(2)[OF c1(3)] by (simp add: fun_eq_iff)
  then have K: "distinct (map (key_of c1) xs)" using wfD(2)[OF W] by simp
  have R: "refs_extra c1 xs hs e"
    unfolding refs_extra_def
  proof
    fix a
    show "case mem c1 a of None \<Rightarrow> a \<notin> set xs \<and> a \<notin> set hs \<and> a \<noteq> e
        | Some x \<Rightarrow> e_ref x = int (count_list hs a) + (if a \<in> set xs then 1 else 0)
                                + (if a = e then 1 else 0) \<and> 0 < e_ref x"
      using refs_okD[OF wfD(3)[OF W], of a] c1(3)[of a] ne
      by (cases "mem c a"; cases "mem c1 a") (auto simp: data_def)
  qed
  from unref_ok[OF c1(2) K R] obtain c' where c0: "unref c1 e = Some c' \<and> wf (c', hs) xs \<and>
      c_head c' = c_head c1 \<and> c_size c' = c_size c1 \<and>
      (\<forall>a. a \<noteq> e \<longrightarrow> mem c' a = mem c1 a) \<and>
      (mem c' e = None \<longleftrightarrow> ref_of c1 e = 1) \<and>
      (mem c' e \<noteq> None \<longrightarrow> content c' e = content c1 e \<and> ref_of c' e = ref_of c1 e - 1)"
    by (rule exE)
  then have c': "unref c1 e = Some c'" "wf (c', hs) xs"
    "c_head c' = c_head c1" "c_size c' = c_size c1" "\<And>a. a \<noteq> e \<Longrightarrow> mem c' a = mem c1 a"
    "mem c' e = None \<longleftrightarrow> ref_of c1 e = 1"
    "mem c' e \<noteq> None \<longrightarrow> content c' e = content c1 e \<and> ref_of c' e = ref_of c1 e - 1"
    by blast+
  have "total c1 xs = total c xs" using c1(3) by (rule total_cong)
  then have "c_size c1 = c_size c - size_of c e"
    using c1(2) wfD(1)[OF W] by (simp add: lru_def)
  moreover have "evict_entry c e = Some c'" using c1(1) c'(1) by (simp add: evict_entry_unref)
  ultimately show ?thesis
    using c'(2-) c1(3) data_eqD(4,5)[OF c1(3)[of e]] by auto
qed

lemma evict_spec_Nil: "evict_spec sz [] = []"
  by (subst evict_spec.simps) simp

lemma evict_spec_snoc:
  "evict_spec sz (xs @ [x]) =
     (if sum_list (map sz xs) + sz x > MAX_CACHE_SIZE then evict_spec sz xs else xs @ [x])"
  by (subst evict_spec.simps) simp

lemma evict_spec_cong:
  "(\<And>a. a \<in> set xs \<Longrightarrow> sz a = sz' a) \<Longrightarrow> evict_spec sz xs = evict_spec sz' xs"
proof (induction xs rule: rev_induct)
  case Nil
  show ?case by (simp add: evict_spec_Nil)
next
  case (snoc x xs)
  have "map sz xs = map sz' xs" using snoc.prems by (intro map_cong) auto
  moreover have "sz x = sz' x" using snoc.prems by simp
  moreover have "evict_spec sz xs = evict_spec sz' xs" using snoc by simp
  ultimately show ?case by (simp only: evict_spec_snoc)
qed

lemma evict_spec_bound: "sum_list (map sz (evict_spec sz xs)) \<le> MAX_CACHE_SIZE"
  by (induction xs rule: rev_induct) (simp_all add: evict_spec_Nil evict_spec_snoc)

lemma evict_spec_take: "\<exists>n. evict_spec sz xs = take n xs"
proof (induction xs rule: rev_induct)
  case Nil
  show ?case by (simp add: evict_spec_Nil)
next
  case (snoc x xs)
  then obtain n where n: "evict_spec sz xs = take n xs" by blast
  show ?case
  proof (cases "sum_list (map sz xs) + sz x > MAX_CACHE_SIZE")
    case True
    then have "evict_spec sz (xs @ [x]) = take (min n (length xs)) (xs @ [x])"
      using n by (simp add: evict_spec_snoc min_def)
    then show ?thesis by blast
  next
    case False
    then have "evict_spec sz (xs @ [x]) = take (Suc (length xs)) (xs @ [x])"
      by (simp add: evict_spec_snoc)
    then show ?thesis by blast
  qed
qed

lemma evict_spec_head:
  assumes "sz a \<le> MAX_CACHE_SIZE"
  shows "\<exists>n. evict_spec sz (a # xs) = a # take n xs"
proof (induction xs rule: rev_induct)
  case Nil
  have "evict_spec sz ([] @ [a]) = [a]" using assms by (simp only: evict_spec_snoc) simp
  then show ?case by simp
next
  case (snoc x xs)
  then obtain n where n: "evict_spec sz (a # xs) = a # take n xs" by blast
  have e: "evict_spec sz (a # xs @ [x]) =
     (if sum_list (map sz (a # xs)) + sz x > MAX_CACHE_SIZE then evict_spec sz (a # xs) else (a # xs) @ [x])"
    using evict_spec_snoc[of sz "a # xs" x] by simp
  show ?case
  proof (cases "sum_list (map sz (a # xs)) + sz x > MAX_CACHE_SIZE")
    case True
    then have "evict_spec sz (a # xs @ [x]) = a # take (min n (length xs)) (xs @ [x])"
      using n e by (simp add: min_def)
    then show ?thesis by blast
  next
    case False
    then have "evict_spec sz (a # xs @ [x]) = a # take (Suc (length xs)) (xs @ [x])"
      using e by simp
    then show ?thesis by blast
  qed
qed

lemma evict_loop_ok:
  assumes "wf (c, hs) xs"
  shows "\<exists>c'. evict_loop c = Some c' \<and> wf (c', hs) (evict_spec (size_of c) xs) \<and>
           (\<forall>a. mem c' a \<noteq> None \<longrightarrow> content c' a = content c a)"
  using assms
proof (induction xs arbitrary: c rule: rev_induct)
  case Nil
  then have "c_head c = None" by (simp add: wf_def lru_def)
  then have "evict_loop c = Some c" by (subst evict_loop.simps) simp
  then show ?case using Nil by (simp add: evict_spec_Nil)
next
  case (snoc e xs)
  note W = snoc.prems
  have L: "lru c (xs @ [e])" using W by (rule wfD)
  show ?case
  proof (cases "c_size c > MAX_CACHE_SIZE")
    case False
    then have "evict_loop c = Some c" by (subst evict_loop.simps) simp
    moreover have "evict_spec (size_of c) (xs @ [e]) = xs @ [e]"
      using False L by (simp add: evict_spec_snoc lru_def total_def)
    ultimately show ?thesis using W by simp
  next
    case True
    obtain h t where ht: "xs @ [e] = h # t" by (cases "xs @ [e]") auto
    have hd: "c_head c = Some h" using L ht by (simp add: lru_def)
    have "ring (mem c) ([] @ h # t)" using L ht by (simp add: lru_def)
    from ring_prev[OF this] have "map_option e_prev (mem c h) = Some (Some (last (xs @ [e])))"
      using ht by simp
    then obtain xh where xh: "mem c h = Some xh" "e_prev xh = Some e" by auto
    from evict_entry_ok[OF W] obtain c1 where c1: "evict_entry c e = Some c1" "wf (c1, hs) xs"
      "\<And>a. a \<noteq> e \<Longrightarrow> map_option data (mem c1 a) = map_option data (mem c a)"
      "mem c1 e \<noteq> None \<longrightarrow> content c1 e = content c e"
      by blast
    from snoc.IH[OF c1(2)] obtain c' where c': "evict_loop c1 = Some c'"
      "wf (c', hs) (evict_spec (size_of c1) xs)"
      "\<And>a. mem c' a \<noteq> None \<Longrightarrow> content c' a = content c1 a"
      by blast
    have ev: "evict_loop c = Some c'"
      using True hd xh c1(1) c'(1) by (subst evict_loop.simps) simp
    have ne: "e \<notin> set xs" using wfD(4)[OF W] by simp
    have "size_of c1 a = size_of c a" if "a \<in> set xs" for a
      using that ne c1(3)[of a] by (intro data_eqD(1)) auto
    then have "evict_spec (size_of c1) xs = evict_spec (size_of c) xs"
      by (rule evict_spec_cong)
    moreover have "evict_spec (size_of c) (xs @ [e]) = evict_spec (size_of c) xs"
      using True L by (simp add: evict_spec_snoc lru_def total_def)
    ultimately have w: "wf (c', hs) (evict_spec (size_of c) (xs @ [e]))" using c'(2) by simp
    have "content c' a = content c a" if a: "mem c' a \<noteq> None" for a
    proof -
      have 1: "content c' a = content c1 a" using a by (rule c'(3))
      then have "mem c1 a \<noteq> None" using a by (cases "mem c1 a") (auto simp: content_def)
      then have "content c1 a = content c a"
        using c1(3)[of a] c1(4) by (cases "a = e") (auto dest: data_eqD(5))
      with 1 show ?thesis by simp
    qed
    then show ?thesis using ev w by blast
  qed
qed

lemma cache_get_miss:
  assumes W: "wf (c, hs) xs" and f: "List.find (\<lambda>b. key_of c b = k) xs = None"
  shows "cache_get c k = Some (None, c)"
  using find_ok[OF wfD(1)[OF W], of k] f by (simp add: cache_get_def)

lemma content_data:
  "map_option data (mem c' a) = map_option data (mem c a) \<Longrightarrow> content c' a = content c a"
  by (rule data_eqD)

lemma cache_get_hit:
  assumes W: "wf (c, hs) xs" and f: "List.find (\<lambda>b. key_of c b = k) xs = Some e"
  shows "\<exists>c'. cache_get c k = Some (Some e, c') \<and> wf (c', e # hs) (e # remove1 e xs) \<and>
           c_size c' = c_size c \<and> (\<forall>a. content c' a = content c a) \<and>
           (\<forall>a. ref_of c' a = (if a = e then ref_of c a + 1 else ref_of c a))"
proof -
  have e: "e \<in> set xs" using f by (auto dest: find_SomeD)
  have fc: "find c k = Some (Some e)" using find_ok[OF wfD(1)[OF W], of k] f by simp
  from promote_ok[OF wfD(1)[OF W] e] obtain c1 c2 where p: "remove_entry c e = Some c1"
    "insert_front c1 e = Some c2" "lru c2 (e # remove1 e xs)" "c_size c2 = c_size c"
    "\<And>a. map_option data (mem c2 a) = map_option data (mem c a)"
    by blast
  have W2: "wf (c2, hs) (e # remove1 e xs)" using W e p(3,5) by (rule wf_promote)
  have "mem c2 e \<noteq> None" using ring_dom[of "mem c2" "e # remove1 e xs" e] p(3) by (simp add: lru_def)
  then obtain x where x: "mem c2 e = Some x" by auto
  let ?c3 = "c2\<lparr>mem := (mem c2)(e \<mapsto> x\<lparr>e_ref := e_ref x + 1\<rparr>)\<rparr>"
  have g: "cache_get c k = Some (Some e, ?c3)"
    using fc p(1,2) x by (simp add: cache_get_def wr_def)
  have L3: "lru ?c3 (e # remove1 e xs)" using p(3) by (rule lru_cong) (use x in auto)
  have k3: "key_of ?c3 = key_of c2" using x by (auto simp: key_of_def fun_eq_iff)
  have R3: "refs_ok ?c3 (e # remove1 e xs) (e # hs)"
    unfolding refs_ok_def
  proof
    fix a
    show "case mem ?c3 a of None \<Rightarrow> a \<notin> set (e # remove1 e xs) \<and> a \<notin> set (e # hs)
        | Some y \<Rightarrow> e_ref y = int (count_list (e # hs) a) + (if a \<in> set (e # remove1 e xs) then 1 else 0)
                    \<and> 0 < e_ref y"
      using refs_okD[OF wfD(3)[OF W2], of a] x
      by (cases "mem c2 a") auto
  qed
  have W3: "wf (?c3, e # hs) (e # remove1 e xs)"
    using L3 R3 wfD(2)[OF W2] k3 by (simp add: wf_def)
  have c3: "content ?c3 a = content c a" for a
    using content_data[OF p(5)[of a]] x by (auto simp: content_def)
  have r3: "ref_of ?c3 a = (if a = e then ref_of c a + 1 else ref_of c a)" for a
    using data_eqD(4)[OF p(5)[of a]] x by (auto simp: ref_of_def)
  show ?thesis using g W3 p(4) c3 r3 by auto
qed

lemma cache_insert_oversize:
  "n > MAX_OBJECT_SIZE \<Longrightarrow> cache_insert c k v n a = Some (None, c)"
  by (simp add: cache_insert_def)

lemma cache_insert_existing:
  assumes W: "wf (c, hs) xs" and n: "n \<le> MAX_OBJECT_SIZE"
    and f: "List.find (\<lambda>b. key_of c b = k) xs = Some e"
  shows "\<exists>c'. cache_insert c k v n a = Some (Some e, c') \<and> wf (c', hs) (e # remove1 e xs) \<and>
           c_size c' = c_size c \<and> (\<forall>a. map_option data (mem c' a) = map_option data (mem c a))"
proof -
  have e: "e \<in> set xs" using f by (auto dest: find_SomeD)
  have fc: "find c k = Some (Some e)" using find_ok[OF wfD(1)[OF W], of k] f by simp
  from promote_ok[OF wfD(1)[OF W] e] obtain c1 c2 where p: "remove_entry c e = Some c1"
    "insert_front c1 e = Some c2" "lru c2 (e # remove1 e xs)" "c_size c2 = c_size c"
    "\<And>a. map_option data (mem c2 a) = map_option data (mem c a)"
    by blast
  have W2: "wf (c2, hs) (e # remove1 e xs)" using W e p(3,5) by (rule wf_promote)
  have "cache_insert c k v n a = Some (Some e, c2)"
    using fc p(1,2) n by (simp add: cache_insert_def)
  then show ?thesis using W2 p(4,5) by auto
qed

lemma MAX_OBJECT_le: "MAX_OBJECT_SIZE \<le> MAX_CACHE_SIZE"
  by (simp add: MAX_OBJECT_SIZE_def MAX_CACHE_SIZE_def)

lemma cache_insert_new:
  assumes I: "inv (c, hs) xs" and n: "n \<le> MAX_OBJECT_SIZE"
    and f: "List.find (\<lambda>b. key_of c b = k) xs = None" and fresh: "mem c a = None"
  shows "\<exists>c'. cache_insert c k v n a = Some (Some a, c') \<and>
           inv (c', hs) (evict_spec ((size_of c)(a := n)) (a # xs)) \<and>
           (\<exists>m. evict_spec ((size_of c)(a := n)) (a # xs) = a # take m xs) \<and>
           content c' a = Some (k, malloc_with_data v n, n) \<and>
           (\<forall>b. b \<noteq> a \<longrightarrow> mem c' b \<noteq> None \<longrightarrow> content c' b = content c b)"
proof -
  have W: "wf (c, hs) xs" and B: "c_size c \<le> MAX_CACHE_SIZE" using I by (simp_all add: inv_def)
  have fc: "find c k = Some None" using find_ok[OF wfD(1)[OF W], of k] f by simp
  have na: "a \<notin> set xs" "a \<notin> set hs" using refs_okD(1)[OF wfD(3)[OF W] fresh] by auto
  let ?e = "\<lparr>e_key = k, e_val = malloc_with_data v n, e_size = n,
             e_next = None, e_prev = None, e_ref = 1\<rparr>"
  let ?c0 = "c\<lparr>mem := (mem c)(a \<mapsto> ?e)\<rparr>"
  have L0: "lru ?c0 xs" using wfD(1)[OF W] by (rule lru_cong) (use na in auto)
  have m0: "mem ?c0 a = Some ?e" by simp
  have b0: "c_size ?c0 + e_size ?e < SIZE_MOD"
    using B n by (simp add: MAX_CACHE_SIZE_def MAX_OBJECT_SIZE_def SIZE_MOD_def)
  from insert_front_ok[OF L0 na(1) m0 b0] obtain c2 where c2: "insert_front ?c0 a = Some c2"
    "lru c2 (a # xs)" "\<And>b. map_option data (mem c2 b) = map_option data (mem ?c0 b)"
    by blast
  have d2a: "map_option data (mem c2 a) = Some (k, malloc_with_data v n, n, 1)"
    using c2(3)[of a] by (simp add: data_def)
  have d2b: "map_option data (mem c2 b) = map_option data (mem c b)" if "b \<noteq> a" for b
    using c2(3)[of b] that by simp
  have k2: "key_of c2 b = (if b = a then k else key_of c b)" for b
    using d2a d2b[of b] by (cases "b = a") (auto simp: key_of_def data_def dest: data_eqD(2))
  have s2: "size_of c2 b = ((size_of c)(a := n)) b" for b
    using d2a d2b[of b] by (cases "b = a") (auto simp: size_of_def data_def dest: data_eqD(1))
  have kn: "k \<notin> key_of c ` set xs" using f by (auto simp: find_None_iff)
  have me: "map (key_of c2) xs = map (key_of c) xs" using na k2 by (intro map_cong) auto
  have "distinct (k # map (key_of c) xs)" using kn wfD(2)[OF W] by simp
  then have K2: "distinct (map (key_of c2) (a # xs))"
    unfolding list.map me using k2[of a] by simp
  have R2: "refs_ok c2 (a # xs) hs"
    unfolding refs_ok_def
  proof
    fix b
    show "case mem c2 b of None \<Rightarrow> b \<notin> set (a # xs) \<and> b \<notin> set hs
        | Some y \<Rightarrow> e_ref y = int (count_list hs b) + (if b \<in> set (a # xs) then 1 else 0) \<and> 0 < e_ref y"
    proof (cases "b = a")
      case True
      then show ?thesis using d2a na by (cases "mem c2 a") (auto simp: data_def)
    next
      case False
      then show ?thesis using d2b[OF False] refs_okD[OF wfD(3)[OF W], of b]
        by (cases "mem c b"; cases "mem c2 b") (auto simp: data_def)
    qed
  qed
  have W2: "wf (c2, hs) (a # xs)" using c2(2) K2 R2 by (simp add: wf_def)
  from evict_loop_ok[OF W2] obtain c3 where c3: "evict_loop c2 = Some c3"
    "wf (c3, hs) (evict_spec (size_of c2) (a # xs))"
    "\<And>b. mem c3 b \<noteq> None \<Longrightarrow> content c3 b = content c2 b"
    by blast
  have sz: "size_of c2 = (size_of c)(a := n)" using s2 by (simp only: fun_eq_iff) simp
  let ?ys = "evict_spec ((size_of c)(a := n)) (a # xs)"
  have W3: "wf (c3, hs) ?ys" using c3(2) sz by simp
  have "((size_of c)(a := n)) a \<le> MAX_CACHE_SIZE" using n MAX_OBJECT_le by simp
  from evict_spec_head[of "(size_of c)(a := n)" a xs, OF this]
  obtain m where m: "?ys = a # take m xs" by blast
  have ins: "cache_insert c k v n a = Some (Some a, c3)"
    using fc n c2(1) c3(1) by (simp add: cache_insert_def)
  have dom3: "mem c3 b \<noteq> None" if "b \<in> set ?ys" for b
    using ring_dom[of "mem c3" ?ys b] wfD(1)[OF W3] that by (simp add: lru_def)
  have "size_of c3 b = size_of c2 b" if "b \<in> set ?ys" for b
    using c3(3)[OF dom3[OF that]] dom3[OF that]
    by (cases "mem c3 b"; cases "mem c2 b") (auto simp: content_def size_of_def)
  then have "total c3 ?ys = total c2 ?ys" by (rule total_size_cong)
  also have "\<dots> \<le> MAX_CACHE_SIZE" unfolding total_def sz by (rule evict_spec_bound)
  finally have B3: "c_size c3 \<le> MAX_CACHE_SIZE" using wfD(1)[OF W3] by (simp add: lru_def)
  have ca: "content c3 a = Some (k, malloc_with_data v n, n)"
    using c3(3)[of a] dom3[of a] m d2a by (cases "mem c2 a") (auto simp: content_def data_def)
  have cb: "content c3 b = content c b" if "b \<noteq> a" "mem c3 b \<noteq> None" for b
    using c3(3)[OF that(2)] content_data[OF d2b[OF that(1)]] by simp
  show ?thesis using ins W3 B3 m ca cb by (auto simp: inv_def)
qed

lemma inv_start: "inv start []"
  by (simp add: inv_def wf_def start_def cache_create_def lru_def refs_ok_def SIZE_MOD_def)

lemma find_cases:
  obtains (miss) "List.find P xs = None" | (hit) e where "List.find P xs = Some e"
  by (cases "List.find P xs") auto

text \<open>One admissible operation from a state that satisfies the invariant: it returns,
  the invariant holds again, the entries that stay allocated keep their bytes, and an
  entry is freed only when its reference count was one.\<close>

lemma step_ok:
  assumes I: "inv (c, hs) xs" and A: "admissible x (c, hs)"
  shows "\<exists>c' hs' xs'. exec x (c, hs) = Some (c', hs') \<and> inv (c', hs') xs' \<and>
           (\<forall>a. mem c a \<noteq> None \<longrightarrow>
                (if mem c' a = None then ref_of c a = 1 \<and> a \<notin> set hs'
                 else content c' a = content c a))"
proof -
  have W: "wf (c, hs) xs" and B: "c_size c \<le> MAX_CACHE_SIZE" using I by (simp_all add: inv_def)
  show ?thesis
  proof (cases x)
    case (Get k)
    show ?thesis
    proof (cases rule: find_cases[of "\<lambda>b. key_of c b = k" xs])
      case miss
      from cache_get_miss[OF W miss] have "exec x (c, hs) = Some (c, hs)" using Get by simp
      moreover have "\<forall>a. mem c a \<noteq> None \<longrightarrow>
          (if mem c a = None then ref_of c a = 1 \<and> a \<notin> set hs
           else content c a = content c a)" by simp
      ultimately show ?thesis using I by blast
    next
      case (hit e)
      from cache_get_hit[OF W hit] obtain c' where c': "cache_get c k = Some (Some e, c')"
        "wf (c', e # hs) (e # remove1 e xs)" "c_size c' = c_size c"
        "\<And>a. content c' a = content c a"
        by blast
      have I': "inv (c', e # hs) (e # remove1 e xs)" using c'(2,3) B by (simp add: inv_def)
      have live: "mem c' a \<noteq> None" if "mem c a \<noteq> None" for a
        using c'(4)[of a] that by (cases "mem c' a") (auto simp: content_def)
      have "if mem c' a = None then ref_of c a = 1 \<and> a \<notin> set (e # hs)
            else content c' a = content c a" if "mem c a \<noteq> None" for a
        using live[OF that] c'(4)[of a] by (cases "mem c' a") simp_all
      then have fr: "\<forall>a. mem c a \<noteq> None \<longrightarrow>
            (if mem c' a = None then ref_of c a = 1 \<and> a \<notin> set (e # hs)
             else content c' a = content c a)" by blast
      have "exec x (c, hs) = Some (c', e # hs)" using Get c'(1) by simp
      then show ?thesis using I' fr by blast
    qed
  next
    case (Release e)
    then have e: "e \<in> set hs" using A by simp
    from release_ok[OF W e] obtain c' where c0: "cache_entry_release c e = Some c' \<and>
        wf (c', remove1 e hs) xs \<and> c_head c' = c_head c \<and> c_size c' = c_size c \<and>
        (\<forall>a. a \<noteq> e \<longrightarrow> mem c' a = mem c a) \<and> (mem c' e = None \<longleftrightarrow> ref_of c e = 1) \<and>
        (mem c' e \<noteq> None \<longrightarrow> content c' e = content c e \<and> ref_of c' e = ref_of c e - 1)"
      by (rule exE)
    then have c': "cache_entry_release c e = Some c'" "wf (c', remove1 e hs) xs"
      "c_size c' = c_size c" "\<And>a. a \<noteq> e \<Longrightarrow> mem c' a = mem c a"
      "mem c' e = None \<longleftrightarrow> ref_of c e = 1" "mem c' e \<noteq> None \<longrightarrow> content c' e = content c e"
      by blast+
    have I': "inv (c', remove1 e hs) xs" using c'(2,3) B by (simp add: inv_def)
    have "if mem c' a = None then ref_of c a = 1 \<and> a \<notin> set (remove1 e hs)
          else content c' a = content c a" if "mem c a \<noteq> None" for a
    proof (cases "a = e")
      case True
      then show ?thesis using c'(5,6) refs_okD(1)[OF wfD(3)[OF c'(2)], of e] by auto
    next
      case False
      then show ?thesis using c'(4)[OF False] that by (auto simp: content_def)
    qed
    then have fr: "\<forall>a. mem c a \<noteq> None \<longrightarrow>
          (if mem c' a = None then ref_of c a = 1 \<and> a \<notin> set (remove1 e hs)
           else content c' a = content c a)" by blast
    have "exec x (c, hs) = Some (c', remove1 e hs)" using Release c'(1) by simp
    then show ?thesis using I' fr by blast
  next
    case (Insert k v n a)
    then have fresh: "mem c a = None" using A by simp
    show ?thesis
    proof (cases "n > MAX_OBJECT_SIZE")
      case True
      then have "exec x (c, hs) = Some (c, hs)" using Insert by (simp add: cache_insert_oversize)
      moreover have "\<forall>a. mem c a \<noteq> None \<longrightarrow>
          (if mem c a = None then ref_of c a = 1 \<and> a \<notin> set hs
           else content c a = content c a)" by simp
      ultimately show ?thesis using I by blast
    next
      case False
      then have n: "n \<le> MAX_OBJECT_SIZE" by simp
      show ?thesis
      proof (cases rule: find_cases[of "\<lambda>b. key_of c b = k" xs])
        case (hit e)
        from cache_insert_existing[OF W n hit, of v a] obtain c' where
          c': "cache_insert c k v n a = Some (Some e, c')" "wf (c', hs) (e # remove1 e xs)"
          "c_size c' = c_size c" "\<And>b. map_option data (mem c' b) = map_option data (mem c b)"
          by blast
        have I': "inv (c', hs) (e # remove1 e xs)" using c'(2,3) B by (simp add: inv_def)
        have "mem c' b \<noteq> None \<and> content c' b = content c b" if "mem c b \<noteq> None" for b
          using data_eqD(5,6)[OF c'(4)[of b]] that by simp
        then have fr: "\<forall>a. mem c a \<noteq> None \<longrightarrow>
          (if mem c' a = None then ref_of c a = 1 \<and> a \<notin> set hs
           else content c' a = content c a)" by metis
        have "exec x (c, hs) = Some (c', hs)" using Insert c'(1) by simp
        then show ?thesis using I' fr by blast
      next
        case miss
        let ?ys = "evict_spec ((size_of c)(a := n)) (a # xs)"
        from cache_insert_new[OF I n miss fresh, of v] obtain c' where
          c': "cache_insert c k v n a = Some (Some a, c')" "inv (c', hs) ?ys"
          "\<And>b. b \<noteq> a \<Longrightarrow> mem c' b \<noteq> None \<Longrightarrow> content c' b = content c b"
          by blast
        have W': "wf (c', hs) ?ys" using c'(2) by (simp add: inv_def)
        obtain m where m: "?ys = a # take m xs"
          using evict_spec_head[of "(size_of c)(a := n)" a xs] n MAX_OBJECT_le by auto
        have "if mem c' b = None then ref_of c b = 1 \<and> b \<notin> set hs
              else content c' b = content c b" if b: "mem c b \<noteq> None" for b
        proof (cases "mem c' b")
          case None
          from b obtain y where y: "mem c b = Some y" by auto
          have "b \<notin> set hs" using refs_okD(1)[OF wfD(3)[OF W'] None] by simp
          then show ?thesis using None refs_okD(2)[OF wfD(3)[OF W] y] y
            by (auto simp: ref_of_def split: if_splits)
        next
          case (Some y)
          have "b \<noteq> a" using b fresh by auto
          then show ?thesis using c'(3)[of b] Some by simp
        qed
        then have fr: "\<forall>a. mem c a \<noteq> None \<longrightarrow>
          (if mem c' a = None then ref_of c a = 1 \<and> a \<notin> set hs
           else content c' a = content c a)" by blast
        have "exec x (c, hs) = Some (c', hs)" using Insert c'(1) by simp
        then show ?thesis using c'(2) fr by blast
      qed
    qed
  qed
qed

lemma run_inv:
  assumes "inv w xs" and "run ops w = Some w'"
  shows "\<exists>xs'. inv w' xs'"
  using assms
proof (induction ops arbitrary: w xs)
  case Nil
  then show ?case by auto
next
  case (Cons x ops)
  obtain c hs where w: "w = (c, hs)" by (cases w)
  from Cons.prems(2) obtain w1 where s: "step x w = Some w1" and r: "run ops w1 = Some w'"
    by (auto split: option.splits)
  from s have A: "admissible x (c, hs)" and e: "exec x (c, hs) = Some w1"
    using w by (auto simp: step_def split: if_splits)
  from step_ok[OF Cons.prems(1)[unfolded w] A] e obtain xs1 where "inv w1 xs1" by auto
  from Cons.IH[OF this r] show ?case .
qed

lemma reach_inv:
  assumes "run ops start = Some w"
  shows "\<exists>xs. inv w xs"
  using run_inv[OF inv_start assms] .

lemmas cache_defs = start_def step_def cache_create_def cache_insert_def cache_get_def
  cache_entry_release_def find_def insert_front_def remove_entry_def evict_entry_def
  free_entry_def wr_def malloc_with_data_def lru_entries_def
  MAX_OBJECT_SIZE_def MAX_CACHE_SIZE_def SIZE_MOD_def
  key_of_def val_of_def size_of_def ref_of_def content_def total_def

lemma invD:
  assumes "inv (c, hs) xs"
  shows "wf (c, hs) xs" and "lru c xs" and "lru_entries c = Some xs"
    and "c_size c = total c xs" and "total c xs \<le> MAX_CACHE_SIZE"
    and "distinct (map (key_of c) xs)" and "refs_ok c xs hs" and "distinct xs"
proof -
  show W: "wf (c, hs) xs" using assms by (simp add: inv_def)
  show L: "lru c xs" using W by (rule wfD)
  show "lru_entries c = Some xs" using L by (rule lru_entries_ok)
  show "c_size c = total c xs" using L by (simp add: lru_def)
  then show "total c xs \<le> MAX_CACHE_SIZE" using assms by (simp add: inv_def)
  show "distinct (map (key_of c) xs)" "refs_ok c xs hs" "distinct xs" using W by (rule wfD)+
qed

text \<open>
  C1. After every sequence of cache operations from \<open>cache_create\<close> the entries held by
  the LRU structure have sizes that sum to \<open>cache->size\<close> and to at most
  \<open>MAX_CACHE_SIZE\<close> (inserts of more than \<open>MAX_OBJECT_SIZE\<close> bytes are rejected, so
  no bound on the sizes of the inserts is needed). An insert of a new key, of at most
  \<open>MAX_OBJECT_SIZE\<close> bytes, gets there as the specification's eviction algorithm does:
  the new entry goes to the front of the held entries, and the entry at the back is
  evicted while the total exceeds the bound.
\<close>

theorem lru_total_within_budget:
  assumes "run ops start = Some (c, hs)"
  shows "\<exists>xs. lru_entries c = Some xs \<and> c_size c = total c xs \<and> total c xs \<le> MAX_CACHE_SIZE \<and>
           (\<forall>k v n a. n \<le> MAX_OBJECT_SIZE \<longrightarrow> k \<notin> key_of c ` set xs \<longrightarrow> mem c a = None \<longrightarrow>
              (\<exists>c'. cache_insert c k v n a = Some (Some a, c') \<and>
                    lru_entries c' = Some (evict_spec ((size_of c)(a := n)) (a # xs)) \<and>
                    c_size c' = total c' (evict_spec ((size_of c)(a := n)) (a # xs)) \<and>
                    total c' (evict_spec ((size_of c)(a := n)) (a # xs)) \<le> MAX_CACHE_SIZE))"
proof -
  from reach_inv[OF assms] obtain xs where I: "inv (c, hs) xs" by blast
  have "\<exists>c'. cache_insert c k v n a = Some (Some a, c') \<and>
             lru_entries c' = Some (evict_spec ((size_of c)(a := n)) (a # xs)) \<and>
             c_size c' = total c' (evict_spec ((size_of c)(a := n)) (a # xs)) \<and>
             total c' (evict_spec ((size_of c)(a := n)) (a # xs)) \<le> MAX_CACHE_SIZE"
    if n: "n \<le> MAX_OBJECT_SIZE" and k: "k \<notin> key_of c ` set xs" and a: "mem c a = None"
    for k v n a
  proof -
    have f: "List.find (\<lambda>b. key_of c b = k) xs = None" using k by (auto simp: find_None_iff)
    from cache_insert_new[OF I n f a, of v] obtain c' where
      c': "cache_insert c k v n a = Some (Some a, c')"
      "inv (c', hs) (evict_spec ((size_of c)(a := n)) (a # xs))"
      by blast
    show ?thesis using c'(1) invD(3,4,5)[OF c'(2)] by blast
  qed
  then show ?thesis using invD(3,4,5)[OF I] by blast
qed

theorem lru_total_within_budget_witness:
  "\<exists>c hs. run [Insert ''a'' ''xx'' 2 1, Get ''a'', Insert ''b'' ''y'' 1 2] start = Some (c, hs) \<and>
     lru_entries c = Some [2, 1] \<and> c_size c = 3 \<and> total c [2, 1] \<le> MAX_CACHE_SIZE \<and>
     (\<exists>c'. cache_insert c ''c'' ''zzzz'' 4 3 = Some (Some 3, c') \<and>
           lru_entries c' = Some (evict_spec ((size_of c)(3 := 4)) [3, 2, 1]) \<and>
           total c' (evict_spec ((size_of c)(3 := 4)) [3, 2, 1]) \<le> MAX_CACHE_SIZE)"
proof -
  have "\<exists>c hs. run [Insert ''a'' ''xx'' 2 1, Get ''a'', Insert ''b'' ''y'' 1 2] start = Some (c, hs) \<and>
     lru_entries c = Some [2, 1] \<and> c_size c = 3 \<and> mem c 3 = None \<and> ''c'' \<notin> key_of c ` set [2, 1]"
    by (simp add: cache_defs find_loop.simps evict_loop.simps walk.simps)
  then obtain c hs where r: "run [Insert ''a'' ''xx'' 2 1, Get ''a'', Insert ''b'' ''y'' 1 2] start = Some (c, hs)"
    and l: "lru_entries c = Some [2, 1]" and s: "c_size c = 3" and m: "mem c 3 = None"
    and k: "''c'' \<notin> key_of c ` set [2, 1]"
    by blast
  have n: "(4::nat) \<le> MAX_OBJECT_SIZE" by (simp add: MAX_OBJECT_SIZE_def)
  from lru_total_within_budget[OF r] obtain xs where x: "lru_entries c = Some xs"
    "total c xs \<le> MAX_CACHE_SIZE"
    and ins: "\<forall>k v n a. n \<le> MAX_OBJECT_SIZE \<longrightarrow> k \<notin> key_of c ` set xs \<longrightarrow> mem c a = None \<longrightarrow>
              (\<exists>c'. cache_insert c k v n a = Some (Some a, c') \<and>
                    lru_entries c' = Some (evict_spec ((size_of c)(a := n)) (a # xs)) \<and>
                    c_size c' = total c' (evict_spec ((size_of c)(a := n)) (a # xs)) \<and>
                    total c' (evict_spec ((size_of c)(a := n)) (a # xs)) \<le> MAX_CACHE_SIZE)"
    by blast
  have xs: "xs = [2, 1]" using x(1) l by simp
  from ins[rule_format, of 4 "''c''" 3 "''zzzz''", OF n] k m
  have "\<exists>c'. cache_insert c ''c'' ''zzzz'' 4 3 = Some (Some 3, c') \<and>
           lru_entries c' = Some (evict_spec ((size_of c)(3 := 4)) [3, 2, 1]) \<and>
           total c' (evict_spec ((size_of c)(3 := 4)) [3, 2, 1]) \<le> MAX_CACHE_SIZE"
    unfolding xs by blast
  then have "total c [2, 1] \<le> MAX_CACHE_SIZE \<and>
     (\<exists>c'. cache_insert c ''c'' ''zzzz'' 4 3 = Some (Some 3, c') \<and>
           lru_entries c' = Some (evict_spec ((size_of c)(3 := 4)) [3, 2, 1]) \<and>
           total c' (evict_spec ((size_of c)(3 := 4)) [3, 2, 1]) \<le> MAX_CACHE_SIZE)"
    using x(2) xs by blast
  then show ?thesis using r l s by blast
qed

lemma take_obj: "take n (obj n ch) = obj n ch"
  by (simp add: obj_def)

lemma evicting_insert_refs:
  assumes I: "inv (c, hs) xs" and I': "inv (c', hs) ys" and ys: "ys = a # take m xs"
    and fresh: "mem c a = None"
    and ct: "\<And>b. b \<noteq> a \<Longrightarrow> mem c' b \<noteq> None \<Longrightarrow> content c' b = content c b"
    and b: "mem c b \<noteq> None"
  shows "if b \<in> set xs \<and> b \<notin> set ys
         then (if ref_of c b = 1 then mem c' b = None
               else content c' b = content c b \<and> ref_of c' b = ref_of c b - 1)
         else content c' b = content c b \<and> ref_of c' b = ref_of c b"
proof -
  note R = invD(7)[OF I] and R' = invD(7)[OF I']
  from b obtain y where y: "mem c b = Some y" by auto
  have ba: "b \<noteq> a" using b fresh by auto
  have rc: "ref_of c b = int (count_list hs b) + (if b \<in> set xs then 1 else 0)"
    using refs_okD(2)[OF R y] y by (simp add: ref_of_def)
  have pos: "0 < ref_of c b" using refs_okD(2)[OF R y] y by (simp add: ref_of_def)
  have sub: "b \<in> set ys \<Longrightarrow> b \<in> set xs" using ys ba by (auto dest: in_set_takeD)
  show ?thesis
  proof (cases "mem c' b")
    case None
    have n: "b \<notin> set ys" "b \<notin> set hs" using refs_okD(1)[OF R' None] by simp_all
    then have "count_list hs b = 0" by (simp add: count_list_zero)
    then have "b \<in> set xs" "ref_of c b = 1" using rc pos by (auto split: if_splits)
    then show ?thesis using None n by simp
  next
    case (Some y')
    have rc': "ref_of c' b = int (count_list hs b) + (if b \<in> set ys then 1 else 0)"
      using refs_okD(2)[OF R' Some] Some by (simp add: ref_of_def)
    have pos': "0 < ref_of c' b" using refs_okD(2)[OF R' Some] Some by (simp add: ref_of_def)
    have c: "content c' b = content c b" using ct[OF ba] Some by simp
    show ?thesis using rc rc' pos' c sub by (auto split: if_splits)
  qed
qed

text \<open>
  C2. Operations run one at a time under the cache mutex, so an interleaving of the
  workers is a sequence of operations; clients release only handles they hold. In every
  state such a sequence reaches, the reference count of every allocated entry is positive:
  it is the number of handles that clients hold to the entry, plus one while the entry is
  in the LRU structure; and every handle points to an allocated entry, also when the entry
  has left the LRU structure. Every further admissible operation returns, and an entry
  allocated before it is either still allocated with the same key, value bytes and size,
  or it was freed, and then its reference count was one (the operation's decrement brought
  it to zero) and no client holds a handle to it. The two decrements:
  \<open>cache_entry_release\<close> on a held handle changes no other entry, frees the entry when
  its count was one, and otherwise takes one off its count and leaves its bytes; an insert
  of a new key takes one off the count of each entry it evicts, frees it when its count
  was one, and otherwise leaves it allocated with its bytes, and every other entry keeps
  its bytes and its count.
\<close>

theorem no_free_while_referenced:
  assumes "run ops start = Some (c, hs)"
  shows "\<exists>xs. lru_entries c = Some xs \<and>
         (\<forall>a. mem c a \<noteq> None \<longrightarrow>
            0 < ref_of c a \<and>
            ref_of c a = int (count_list hs a) + (if a \<in> set xs then 1 else 0)) \<and>
         (\<forall>h\<in>set hs. mem c h \<noteq> None) \<and>
         (\<forall>x. admissible x (c, hs) \<longrightarrow>
            (\<exists>c' hs'. exec x (c, hs) = Some (c', hs') \<and>
               (\<forall>a. mem c a \<noteq> None \<longrightarrow>
                  (if mem c' a = None then ref_of c a = 1 \<and> a \<notin> set hs'
                   else content c' a = content c a)))) \<and>
         (\<forall>e\<in>set hs.
            \<exists>c'. cache_entry_release c e = Some c' \<and>
                 (\<forall>a. a \<noteq> e \<longrightarrow> mem c' a = mem c a) \<and>
                 (if ref_of c e = 1 then mem c' e = None
                  else content c' e = content c e \<and> ref_of c' e = ref_of c e - 1)) \<and>
         (\<forall>k v n a. n \<le> MAX_OBJECT_SIZE \<longrightarrow> k \<notin> key_of c ` set xs \<longrightarrow> mem c a = None \<longrightarrow>
            (\<exists>c'. cache_insert c k v n a = Some (Some a, c') \<and>
                  lru_entries c' = Some (evict_spec ((size_of c)(a := n)) (a # xs)) \<and>
                  (\<forall>b. mem c b \<noteq> None \<longrightarrow>
                     (if b \<in> set xs \<and> b \<notin> set (evict_spec ((size_of c)(a := n)) (a # xs))
                      then (if ref_of c b = 1 then mem c' b = None
                            else content c' b = content c b \<and> ref_of c' b = ref_of c b - 1)
                      else content c' b = content c b \<and> ref_of c' b = ref_of c b))))"
proof -
  from reach_inv[OF assms] obtain xs where I: "inv (c, hs) xs" by blast
  have R: "refs_ok c xs hs" using I by (rule invD)
  have 0: "lru_entries c = Some xs" using I by (rule invD)
  have 1: "0 < ref_of c a \<and>
           ref_of c a = int (count_list hs a) + (if a \<in> set xs then 1 else 0)"
    if "mem c a \<noteq> None" for a
    using that refs_okD(2)[OF R, of a] by (auto simp: ref_of_def)
  have 2: "mem c h \<noteq> None" if "h \<in> set hs" for h
    using that refs_okD(1)[OF R, of h] by auto
  have 3: "\<exists>c' hs'. exec x (c, hs) = Some (c', hs') \<and>
               (\<forall>a. mem c a \<noteq> None \<longrightarrow>
                  (if mem c' a = None then ref_of c a = 1 \<and> a \<notin> set hs'
                   else content c' a = content c a))" if "admissible x (c, hs)" for x
    using step_ok[OF I that] by blast
  have 4: "\<exists>c'. cache_entry_release c e = Some c' \<and>
                 (\<forall>a. a \<noteq> e \<longrightarrow> mem c' a = mem c a) \<and>
                 (if ref_of c e = 1 then mem c' e = None
                  else content c' e = content c e \<and> ref_of c' e = ref_of c e - 1)"
    if e: "e \<in> set hs" for e
  proof -
    from release_ok[OF invD(1)[OF I] e] obtain c' where c0: "cache_entry_release c e = Some c' \<and>
        wf (c', remove1 e hs) xs \<and> c_head c' = c_head c \<and> c_size c' = c_size c \<and>
        (\<forall>a. a \<noteq> e \<longrightarrow> mem c' a = mem c a) \<and> (mem c' e = None \<longleftrightarrow> ref_of c e = 1) \<and>
        (mem c' e \<noteq> None \<longrightarrow> content c' e = content c e \<and> ref_of c' e = ref_of c e - 1)"
      by (rule exE)
    then have c': "cache_entry_release c e = Some c'"
      "\<forall>a. a \<noteq> e \<longrightarrow> mem c' a = mem c a"
      "mem c' e = None \<longleftrightarrow> ref_of c e = 1"
      "mem c' e \<noteq> None \<longrightarrow> content c' e = content c e \<and> ref_of c' e = ref_of c e - 1"
      by blast+
    have "if ref_of c e = 1 then mem c' e = None
          else content c' e = content c e \<and> ref_of c' e = ref_of c e - 1"
      using c'(3,4) by simp
    then show ?thesis using c'(1,2) by blast
  qed
  have 5: "\<exists>c'. cache_insert c k v n a = Some (Some a, c') \<and>
                  lru_entries c' = Some (evict_spec ((size_of c)(a := n)) (a # xs)) \<and>
                  (\<forall>b. mem c b \<noteq> None \<longrightarrow>
                     (if b \<in> set xs \<and> b \<notin> set (evict_spec ((size_of c)(a := n)) (a # xs))
                      then (if ref_of c b = 1 then mem c' b = None
                            else content c' b = content c b \<and> ref_of c' b = ref_of c b - 1)
                      else content c' b = content c b \<and> ref_of c' b = ref_of c b))"
    if n: "n \<le> MAX_OBJECT_SIZE" and k: "k \<notin> key_of c ` set xs" and a: "mem c a = None"
    for k v n a
  proof -
    let ?ys = "evict_spec ((size_of c)(a := n)) (a # xs)"
    have f: "List.find (\<lambda>b. key_of c b = k) xs = None" using k by (auto simp: find_None_iff)
    from cache_insert_new[OF I n f a, of v] obtain c' m where
      c': "cache_insert c k v n a = Some (Some a, c')" "inv (c', hs) ?ys" "?ys = a # take m xs"
      "\<And>b. b \<noteq> a \<Longrightarrow> mem c' b \<noteq> None \<Longrightarrow> content c' b = content c b"
      by blast
    have "\<forall>b. mem c b \<noteq> None \<longrightarrow>
                     (if b \<in> set xs \<and> b \<notin> set ?ys
                      then (if ref_of c b = 1 then mem c' b = None
                            else content c' b = content c b \<and> ref_of c' b = ref_of c b - 1)
                      else content c' b = content c b \<and> ref_of c' b = ref_of c b)"
      using evicting_insert_refs[OF I c'(2,3) a c'(4)] by blast
    then show ?thesis using c'(1) invD(3)[OF c'(2)] by blast
  qed
  show ?thesis
    apply (rule exI[of _ xs])
    apply (intro conjI allI impI ballI)
    using 0 1 2 3 4 5 by blast+
qed

theorem no_free_while_referenced_witness:
  "\<exists>c hs. run scenario_e start = Some (c, hs) \<and> hs = [1] \<and>
     lru_entries c = Some [11, 10, 9, 8, 7, 6, 5, 4, 3, 2] \<and>
     content c 1 = Some (''k0'', obj 102400 CHR ''0'', 102400) \<and> ref_of c 1 = 1 \<and>
     admissible (Release 1) (c, hs) \<and>
     (\<exists>c' hs'. exec (Release 1) (c, hs) = Some (c', hs') \<and> mem c' 1 = None \<and> hs' = [] \<and>
        content c' 2 = content c 2) \<and>
     (\<exists>c'. cache_entry_release c 1 = Some c' \<and> mem c' 1 = None \<and> mem c' 2 = mem c 2) \<and>
     (\<exists>c'. cache_insert c ''k11'' (obj 102400 CHR ''b'') 102400 12 = Some (Some 12, c') \<and>
           lru_entries c' = Some [12, 11, 10, 9, 8, 7, 6, 5, 4, 3] \<and>
           mem c' 2 = None \<and> content c' 1 = content c 1 \<and> ref_of c' 1 = 1 \<and>
           content c' 3 = content c 3 \<and> ref_of c' 3 = ref_of c 3)"
proof -
  have "\<exists>c hs. run scenario_e start = Some (c, hs) \<and> hs = [1] \<and>
     lru_entries c = Some [11, 10, 9, 8, 7, 6, 5, 4, 3, 2] \<and>
     content c 1 = Some (''k0'', obj 102400 CHR ''0'', 102400) \<and> ref_of c 1 = 1 \<and>
     ref_of c 2 = 1 \<and> mem c 1 \<noteq> None \<and> mem c 2 \<noteq> None \<and> mem c 3 \<noteq> None \<and> mem c 12 = None \<and>
     map (key_of c) [11, 10, 9, 8, 7, 6, 5, 4, 3, 2] =
       [''k10'', ''k9'', ''k8'', ''k7'', ''k6'', ''k5'', ''k4'', ''k3'', ''k2'', ''k1''] \<and>
     map (size_of c) [11, 10, 9, 8, 7, 6, 5, 4, 3, 2] =
       [102400, 102400, 102400, 102400, 102400, 102400, 102400, 102400, 102400, 102400]"
    by (simp add: scenario_e_def scenario_d100_def cache_defs take_obj find_loop.simps
          evict_loop.simps walk.simps)
  then obtain c hs where r: "run scenario_e start = Some (c, hs)" and h: "hs = [1]"
    and l: "lru_entries c = Some [11, 10, 9, 8, 7, 6, 5, 4, 3, 2]"
    and c1: "content c 1 = Some (''k0'', obj 102400 CHR ''0'', 102400)"
    and f: "ref_of c 1 = 1" "ref_of c 2 = 1"
    and m: "mem c 1 \<noteq> None" "mem c 2 \<noteq> None" "mem c 3 \<noteq> None" and m12: "mem c 12 = None"
    and ks: "map (key_of c) [11, 10, 9, 8, 7, 6, 5, 4, 3, 2] =
       [''k10'', ''k9'', ''k8'', ''k7'', ''k6'', ''k5'', ''k4'', ''k3'', ''k2'', ''k1'']"
    and ss: "map (size_of c) [11, 10, 9, 8, 7, 6, 5, 4, 3, 2] =
       [102400, 102400, 102400, 102400, 102400, 102400, 102400, 102400, 102400, 102400]"
    by (elim exE conjE) (rule that)
  have a: "admissible (Release 1) (c, hs)" using h by simp
  have sz: "size_of c 11 = 102400" "size_of c 10 = 102400" "size_of c 9 = 102400"
    "size_of c 8 = 102400" "size_of c 7 = 102400" "size_of c 6 = 102400" "size_of c 5 = 102400"
    "size_of c 4 = 102400" "size_of c 3 = 102400" "size_of c 2 = 102400"
    using ss by simp_all
  have es: "evict_spec ((size_of c)(12 := 102400)) [12, 11, 10, 9, 8, 7, 6, 5, 4, 3, 2] =
      [12, 11, 10, 9, 8, 7, 6, 5, 4, 3]"
    by (subst evict_spec.simps, simp add: sz MAX_CACHE_SIZE_def,
        subst evict_spec.simps, simp add: sz MAX_CACHE_SIZE_def)
  from no_free_while_referenced[OF r] obtain xs where x: "lru_entries c = Some xs"
    and pos: "\<forall>a. mem c a \<noteq> None \<longrightarrow>
            0 < ref_of c a \<and>
            ref_of c a = int (count_list hs a) + (if a \<in> set xs then 1 else 0)"
    and held: "\<forall>h\<in>set hs. mem c h \<noteq> None"
    and st: "\<forall>x. admissible x (c, hs) \<longrightarrow>
            (\<exists>c' hs'. exec x (c, hs) = Some (c', hs') \<and>
               (\<forall>a. mem c a \<noteq> None \<longrightarrow>
                  (if mem c' a = None then ref_of c a = 1 \<and> a \<notin> set hs'
                   else content c' a = content c a)))"
    and rel: "\<forall>e\<in>set hs.
            \<exists>c'. cache_entry_release c e = Some c' \<and>
                 (\<forall>a. a \<noteq> e \<longrightarrow> mem c' a = mem c a) \<and>
                 (if ref_of c e = 1 then mem c' e = None
                  else content c' e = content c e \<and> ref_of c' e = ref_of c e - 1)"
    and ev: "\<forall>k v n a. n \<le> MAX_OBJECT_SIZE \<longrightarrow> k \<notin> key_of c ` set xs \<longrightarrow> mem c a = None \<longrightarrow>
            (\<exists>c'. cache_insert c k v n a = Some (Some a, c') \<and>
                  lru_entries c' = Some (evict_spec ((size_of c)(a := n)) (a # xs)) \<and>
                  (\<forall>b. mem c b \<noteq> None \<longrightarrow>
                     (if b \<in> set xs \<and> b \<notin> set (evict_spec ((size_of c)(a := n)) (a # xs))
                      then (if ref_of c b = 1 then mem c' b = None
                            else content c' b = content c b \<and> ref_of c' b = ref_of c b - 1)
                      else content c' b = content c b \<and> ref_of c' b = ref_of c b)))"
    by (elim exE conjE) (rule that)
  have xs: "xs = [11, 10, 9, 8, 7, 6, 5, 4, 3, 2]" using x l by simp
  have h1: "1 \<in> set hs" using h by simp
  from rel[rule_format, OF h1] obtain c' where
    c': "cache_entry_release c 1 = Some c'" "\<forall>a. a \<noteq> 1 \<longrightarrow> mem c' a = mem c a"
    and c'3: "if ref_of c 1 = 1 then mem c' 1 = None
       else content c' 1 = content c 1 \<and> ref_of c' 1 = ref_of c 1 - 1"
    by (elim exE conjE) (rule that)
  have c'1: "mem c' 1 = None" using c'3 f(1) by simp
  have c'2: "mem c' 2 = mem c 2" using c'(2) by simp
  have p1: "\<exists>c'. cache_entry_release c 1 = Some c' \<and> mem c' 1 = None \<and> mem c' 2 = mem c 2"
    using c'(1) c'1 c'2 by (intro exI[of _ c'] conjI)
  have e0: "exec (Release 1) (c, hs) = Some (c', [])" using c'(1) h by simp
  have e2: "content c' 2 = content c 2" using c'2 by (simp add: content_def)
  have "exec (Release 1) (c, hs) = Some (c', []) \<and> mem c' 1 = None \<and> [] = ([]::addr list) \<and>
        content c' 2 = content c 2"
    using e0 c'1 e2 by simp
  then have p0: "\<exists>c' hs'. exec (Release 1) (c, hs) = Some (c', hs') \<and> mem c' 1 = None \<and> hs' = [] \<and>
        content c' 2 = content c 2"
    by (intro exI[of _ c'] exI[of _ "[]"])
  have n: "(102400::nat) \<le> MAX_OBJECT_SIZE" by (simp add: MAX_OBJECT_SIZE_def)
  have k: "''k11'' \<notin> key_of c ` set xs"
  proof -
    have "key_of c ` set xs = set (map (key_of c) xs)" by simp
    then show ?thesis unfolding xs ks by simp
  qed
  from ev[rule_format, OF n k m12, of "obj 102400 CHR ''b''", unfolded xs es] obtain c2 where
    c2: "cache_insert c ''k11'' (obj 102400 CHR ''b'') 102400 12 = Some (Some 12, c2)"
    "lru_entries c2 = Some [12, 11, 10, 9, 8, 7, 6, 5, 4, 3]"
    and c23: "\<forall>b. mem c b \<noteq> None \<longrightarrow>
        (if b \<in> set [11, 10, 9, 8, 7, 6, 5, 4, 3, 2] \<and> b \<notin> set [12, 11, 10, 9, 8, 7, 6, 5, 4, 3]
         then (if ref_of c b = 1 then mem c2 b = None
               else content c2 b = content c b \<and> ref_of c2 b = ref_of c b - 1)
         else content c2 b = content c b \<and> ref_of c2 b = ref_of c b)"
    by (elim exE conjE) (rule that)
  have b2: "mem c2 2 = None" using c23[rule_format, OF m(2)] f(2) by simp
  have b1: "content c2 1 = content c 1" "ref_of c2 1 = 1"
    using c23[rule_format, OF m(1)] f(1) by simp_all
  have b3: "content c2 3 = content c 3" "ref_of c2 3 = ref_of c 3"
    using c23[rule_format, OF m(3)] by simp_all
  have p2: "\<exists>c'. cache_insert c ''k11'' (obj 102400 CHR ''b'') 102400 12 = Some (Some 12, c') \<and>
           lru_entries c' = Some [12, 11, 10, 9, 8, 7, 6, 5, 4, 3] \<and>
           mem c' 2 = None \<and> content c' 1 = content c 1 \<and> ref_of c' 1 = 1 \<and>
           content c' 3 = content c 3 \<and> ref_of c' 3 = ref_of c 3"
    using c2 b2 b1 b3 by (intro exI[of _ c2] conjI)
  have "run scenario_e start = Some (c, hs) \<and> hs = [1] \<and>
     lru_entries c = Some [11, 10, 9, 8, 7, 6, 5, 4, 3, 2] \<and>
     content c 1 = Some (''k0'', obj 102400 CHR ''0'', 102400) \<and> ref_of c 1 = 1 \<and>
     admissible (Release 1) (c, hs) \<and>
     (\<exists>c' hs'. exec (Release 1) (c, hs) = Some (c', hs') \<and> mem c' 1 = None \<and> hs' = [] \<and>
        content c' 2 = content c 2) \<and>
     (\<exists>c'. cache_entry_release c 1 = Some c' \<and> mem c' 1 = None \<and> mem c' 2 = mem c 2) \<and>
     (\<exists>c'. cache_insert c ''k11'' (obj 102400 CHR ''b'') 102400 12 = Some (Some 12, c') \<and>
           lru_entries c' = Some [12, 11, 10, 9, 8, 7, 6, 5, 4, 3] \<and>
           mem c' 2 = None \<and> content c' 1 = content c 1 \<and> ref_of c' 1 = 1 \<and>
           content c' 3 = content c 3 \<and> ref_of c' 3 = ref_of c 3)"
    using r h l c1 f(1) a p0 p1 p2 by (intro conjI)
  then show ?thesis by (intro exI[of _ c] exI[of _ hs])
qed

text \<open>
  C4. An insert of more than \<open>MAX_OBJECT_SIZE\<close> bytes returns \<open>NULL\<close> and leaves
  the state as it is, whatever the state. In every state reached from \<open>cache_create\<close>,
  \<open>cache_get\<close> returns: either \<open>NULL\<close>, with the state unchanged, or a pointer to an
  entry of the LRU structure with the key asked for, and every entry has the key, bytes
  and size it had.
\<close>

theorem insert_oversize_and_get_outcomes:
  "(MAX_OBJECT_SIZE < n \<longrightarrow> cache_insert c k v n a = Some (None, c)) \<and>
   (run ops start = Some (c0, hs) \<longrightarrow>
      cache_get c0 k' = Some (None, c0) \<or>
      (\<exists>e c' xs. cache_get c0 k' = Some (Some e, c') \<and> lru_entries c0 = Some xs \<and>
          e \<in> set xs \<and> key_of c0 e = k' \<and> mem c' e \<noteq> None \<and>
          (\<forall>b. content c' b = content c0 b)))"
proof (intro conjI impI)
  assume "MAX_OBJECT_SIZE < n"
  then show "cache_insert c k v n a = Some (None, c)" by (rule cache_insert_oversize)
next
  assume "run ops start = Some (c0, hs)"
  from reach_inv[OF this] obtain xs where I: "inv (c0, hs) xs" by blast
  show "cache_get c0 k' = Some (None, c0) \<or>
      (\<exists>e c' xs. cache_get c0 k' = Some (Some e, c') \<and> lru_entries c0 = Some xs \<and>
          e \<in> set xs \<and> key_of c0 e = k' \<and> mem c' e \<noteq> None \<and>
          (\<forall>b. content c' b = content c0 b))"
  proof (cases rule: find_cases[of "\<lambda>b. key_of c0 b = k'" xs])
    case miss
    then show ?thesis using cache_get_miss[OF invD(1)[OF I]] by simp
  next
    case (hit e)
    from cache_get_hit[OF invD(1)[OF I] hit] obtain c' where
      c': "cache_get c0 k' = Some (Some e, c')" "wf (c', e # hs) (e # remove1 e xs)"
      "\<And>b. content c' b = content c0 b"
      by blast
    have "mem c' e \<noteq> None" using refs_okD(1)[OF wfD(3)[OF c'(2)], of e] by auto
    then show ?thesis using c'(1,3) find_SomeD[OF hit] invD(3)[OF I] by blast
  qed
qed

theorem insert_oversize_and_get_outcomes_witness:
  "cache_insert cache_create ''k'' ''v'' 102401 1 = Some (None, cache_create) \<and>
   (\<exists>c0 hs. run [Insert ''a'' ''xx'' 2 1] start = Some (c0, hs) \<and>
      cache_get c0 ''b'' = Some (None, c0) \<and>
      (\<exists>e c'. cache_get c0 ''a'' = Some (Some e, c') \<and> content c' e = content c0 e))"
proof -
  have n: "MAX_OBJECT_SIZE < 102401" by (simp add: MAX_OBJECT_SIZE_def)
  have "\<exists>c0 hs. run [Insert ''a'' ''xx'' 2 1] start = Some (c0, hs) \<and>
      cache_get c0 ''b'' \<noteq> Some (None, c0) \<or> True"
    by simp
  have "\<exists>c0 hs. run [Insert ''a'' ''xx'' 2 1] start = Some (c0, hs) \<and>
      (\<exists>r. cache_get c0 ''b'' = Some (None, r)) \<and> (\<exists>e r. cache_get c0 ''a'' = Some (Some e, r))"
    by (simp add: cache_defs find_loop.simps evict_loop.simps walk.simps)
  then obtain c0 hs e r r' where r: "run [Insert ''a'' ''xx'' 2 1] start = Some (c0, hs)"
    and b: "cache_get c0 ''b'' = Some (None, r')" and a: "cache_get c0 ''a'' = Some (Some e, r)"
    by blast
  from insert_oversize_and_get_outcomes[of 102401 cache_create "''k''" "''v''" 1 "[Insert ''a'' ''xx'' 2 1]" c0 hs "''b''"]
  have 1: "cache_insert cache_create ''k'' ''v'' 102401 1 = Some (None, cache_create)"
    and 2: "cache_get c0 ''b'' = Some (None, c0)"
    using n r b by auto
  from insert_oversize_and_get_outcomes[of 102401 cache_create "''k''" "''v''" 1 "[Insert ''a'' ''xx'' 2 1]" c0 hs "''a''"]
  have 3: "content r e = content c0 e" using r a by auto
  show ?thesis using 1 2 3 r a by blast
qed

text \<open>
  C10. In every state reached from \<open>cache_create\<close>: a \<open>cache_get\<close> that misses
  returns the state it was given; one that hits moves the entry to the head of the LRU
  order, leaving the others in the order they had, and adds one to its reference count,
  while \<open>cache->size\<close>, the keys present, the other reference counts, and the key,
  bytes and size of every entry stay as they were.
\<close>

theorem get_changes_order_and_ref_only:
  assumes "run ops start = Some (c, hs)"
  shows "\<exists>xs. lru_entries c = Some xs \<and>
           (case List.find (\<lambda>b. key_of c b = k) xs of
              None \<Rightarrow> cache_get c k = Some (None, c)
            | Some e \<Rightarrow>
                (\<exists>c'. cache_get c k = Some (Some e, c') \<and>
                   lru_entries c' = Some (e # remove1 e xs) \<and>
                   c_size c' = c_size c \<and>
                   key_of c' ` set (e # remove1 e xs) = key_of c ` set xs \<and>
                   (\<forall>a. content c' a = content c a) \<and>
                   (\<forall>a. ref_of c' a = (if a = e then ref_of c a + 1 else ref_of c a))))"
proof -
  from reach_inv[OF assms] obtain xs where I: "inv (c, hs) xs" by blast
  have "case List.find (\<lambda>b. key_of c b = k) xs of
              None \<Rightarrow> cache_get c k = Some (None, c)
            | Some e \<Rightarrow>
                (\<exists>c'. cache_get c k = Some (Some e, c') \<and>
                   lru_entries c' = Some (e # remove1 e xs) \<and>
                   c_size c' = c_size c \<and>
                   key_of c' ` set (e # remove1 e xs) = key_of c ` set xs \<and>
                   (\<forall>a. content c' a = content c a) \<and>
                   (\<forall>a. ref_of c' a = (if a = e then ref_of c a + 1 else ref_of c a)))"
  proof (cases rule: find_cases[of "\<lambda>b. key_of c b = k" xs])
    case miss
    then show ?thesis using cache_get_miss[OF invD(1)[OF I]] by simp
  next
    case (hit e)
    from cache_get_hit[OF invD(1)[OF I] hit] obtain c' where
      c': "cache_get c k = Some (Some e, c')" "wf (c', e # hs) (e # remove1 e xs)"
      "c_size c' = c_size c" "\<And>a. content c' a = content c a"
      "\<And>a. ref_of c' a = (if a = e then ref_of c a + 1 else ref_of c a)"
      by blast
    have l: "lru_entries c' = Some (e # remove1 e xs)"
      using wfD(1)[OF c'(2)] by (rule lru_entries_ok)
    have ky: "key_of c' a = key_of c a" for a
      using c'(4)[of a] by (cases "mem c a"; cases "mem c' a") (auto simp: content_def key_of_def)
    have se: "set (e # remove1 e xs) = set xs" using find_SomeD[OF hit] invD(8)[OF I] by auto
    have "key_of c' = key_of c" using ky by (simp add: fun_eq_iff)
    then have img: "key_of c' ` set (e # remove1 e xs) = key_of c ` set xs"
      by (simp only: se)
    have "\<exists>c'. cache_get c k = Some (Some e, c') \<and>
                   lru_entries c' = Some (e # remove1 e xs) \<and>
                   c_size c' = c_size c \<and>
                   key_of c' ` set (e # remove1 e xs) = key_of c ` set xs \<and>
                   (\<forall>a. content c' a = content c a) \<and>
                   (\<forall>a. ref_of c' a = (if a = e then ref_of c a + 1 else ref_of c a))"
      using c'(1,3,4,5) l img by blast
    then show ?thesis by (simp only: hit option.case)
  qed
  then show ?thesis using invD(3)[OF I] by blast
qed

theorem get_changes_order_and_ref_only_witness:
  "\<exists>c hs. run [Insert ''a'' ''xx'' 2 1, Insert ''b'' ''y'' 1 2] start = Some (c, hs) \<and>
     lru_entries c = Some [2, 1] \<and> cache_get c ''q'' = Some (None, c) \<and>
     (\<exists>c'. cache_get c ''a'' = Some (Some 1, c') \<and> lru_entries c' = Some [1, 2] \<and>
        c_size c' = c_size c \<and> ref_of c' 1 = ref_of c 1 + 1 \<and> ref_of c' 2 = ref_of c 2 \<and>
        content c' 1 = content c 1 \<and> content c' 2 = content c 2)"
proof -
  have "\<exists>c hs. run [Insert ''a'' ''xx'' 2 1, Insert ''b'' ''y'' 1 2] start = Some (c, hs) \<and>
     lru_entries c = Some [2, 1] \<and> key_of c 2 = ''b'' \<and> key_of c 1 = ''a''"
    by (simp add: cache_defs find_loop.simps evict_loop.simps walk.simps)
  then obtain c hs where r: "run [Insert ''a'' ''xx'' 2 1, Insert ''b'' ''y'' 1 2] start = Some (c, hs)"
    and l: "lru_entries c = Some [2, 1]" and k: "key_of c 2 = ''b''" "key_of c 1 = ''a''"
    by blast
  from get_changes_order_and_ref_only[OF r, of "''q''"] l k
  have 1: "cache_get c ''q'' = Some (None, c)" by auto
  from get_changes_order_and_ref_only[OF r, of "''a''"] obtain xs where
    x: "lru_entries c = Some xs" and
    cs: "case List.find (\<lambda>b. key_of c b = ''a'') xs of
              None \<Rightarrow> cache_get c ''a'' = Some (None, c)
            | Some e \<Rightarrow>
                (\<exists>c'. cache_get c ''a'' = Some (Some e, c') \<and>
                   lru_entries c' = Some (e # remove1 e xs) \<and>
                   c_size c' = c_size c \<and>
                   key_of c' ` set (e # remove1 e xs) = key_of c ` set xs \<and>
                   (\<forall>a. content c' a = content c a) \<and>
                   (\<forall>a. ref_of c' a = (if a = e then ref_of c a + 1 else ref_of c a)))"
    by blast
  have xs: "xs = [2, 1]" using x l by simp
  have f: "List.find (\<lambda>b. key_of c b = ''a'') [2, 1] = Some 1" using k by simp
  from cs[unfolded xs f] obtain c' where c': "cache_get c ''a'' = Some (Some 1, c')"
    "lru_entries c' = Some (1 # remove1 1 [2, 1])" "c_size c' = c_size c"
    "\<forall>a. content c' a = content c a"
    "\<forall>a. ref_of c' a = (if a = 1 then ref_of c a + 1 else ref_of c a)"
    by auto
  have "lru_entries c' = Some [1, 2]" using c'(2) by simp
  moreover have "ref_of c' 1 = ref_of c 1 + 1" "ref_of c' 2 = ref_of c 2" using c'(5) by simp_all
  moreover have "content c' 1 = content c 1" "content c' 2 = content c 2" using c'(4) by simp_all
  ultimately have 2: "\<exists>c'. cache_get c ''a'' = Some (Some 1, c') \<and> lru_entries c' = Some [1, 2] \<and>
        c_size c' = c_size c \<and> ref_of c' 1 = ref_of c 1 + 1 \<and> ref_of c' 2 = ref_of c 2 \<and>
        content c' 1 = content c 1 \<and> content c' 2 = content c 2"
    using c'(1,3) by blast
  show ?thesis using r l 1 2 by blast
qed

text \<open>
  C9 as stated fails: 200 KiB is more than \<open>MAX_OBJECT_SIZE\<close>, every insert of the
  scenario is rejected, and after the insert for \<open>k6\<close> the cache is still the empty
  cache, where \<open>cache_get\<close> for \<open>k6\<close> returns \<open>NULL\<close>.
\<close>

theorem scenario_d_get_k6_absent:
  "run (take 7 scenario_d) start = Some start \<and>
   cache_get (cache_after (take 7 scenario_d)) ''k6'' = Some (None, cache_create)"
  by (simp add: scenario_d_def cache_after_def cache_defs find_loop.simps evict_loop.simps walk.simps)

text \<open>
  C9, amended. With the ten objects of 200 KiB every insert returns \<open>NULL\<close>, the cache
  stays empty (total 0), and \<open>cache_get\<close> returns \<open>NULL\<close> for \<open>k0\<close> and for \<open>k6\<close>.
  With objects of 100 KiB, the largest size accepted: after the tenth insert (\<open>k9\<close>) the
  total is 1000 KiB and all ten are held; the eleventh insert (\<open>k10\<close>) evicts \<open>k0\<close>,
  after which \<open>cache_get\<close> returns \<open>NULL\<close> for \<open>k0\<close> and the bytes inserted for \<open>k10\<close>.
\<close>

theorem scenario_d_amended:
  "run scenario_d start = Some start \<and>
   c_size (cache_after scenario_d) = 0 \<and> lru_entries (cache_after scenario_d) = Some [] \<and>
   cache_get (cache_after scenario_d) ''k0'' = Some (None, cache_after scenario_d) \<and>
   cache_get (cache_after scenario_d) ''k6'' = Some (None, cache_after scenario_d) \<and>
   run (take 10 scenario_d100) start \<noteq> None \<and>
   c_size (cache_after (take 10 scenario_d100)) = 1024000 \<and>
   lru_entries (cache_after (take 10 scenario_d100)) = Some [10, 9, 8, 7, 6, 5, 4, 3, 2, 1] \<and>
   run scenario_d100 start \<noteq> None \<and>
   c_size (cache_after scenario_d100) = 1024000 \<and>
   lru_entries (cache_after scenario_d100) = Some [11, 10, 9, 8, 7, 6, 5, 4, 3, 2] \<and>
   mem (cache_after scenario_d100) 1 = None \<and>
   cache_get (cache_after scenario_d100) ''k0'' = Some (None, cache_after scenario_d100) \<and>
   map_option (\<lambda>(r, c'). (r, map_option (val_of c') r)) (cache_get (cache_after scenario_d100) ''k10'')
     = Some (Some 11, Some (obj 102400 CHR ''a''))"
proof -
  have a: "run scenario_d start = Some start \<and>
   c_size (cache_after scenario_d) = 0 \<and> lru_entries (cache_after scenario_d) = Some [] \<and>
   cache_get (cache_after scenario_d) ''k0'' = Some (None, cache_after scenario_d) \<and>
   cache_get (cache_after scenario_d) ''k6'' = Some (None, cache_after scenario_d)"
    by (simp add: scenario_d_def cache_after_def cache_defs find_loop.simps evict_loop.simps walk.simps)
  have "\<exists>c. run (take 10 scenario_d100) start = Some (c, []) \<and> c_size c = 1024000 \<and>
     lru_entries c = Some [10, 9, 8, 7, 6, 5, 4, 3, 2, 1]"
    by (simp add: scenario_d100_def cache_defs take_obj find_loop.simps evict_loop.simps walk.simps)
  then have b: "run (take 10 scenario_d100) start \<noteq> None \<and>
   c_size (cache_after (take 10 scenario_d100)) = 1024000 \<and>
   lru_entries (cache_after (take 10 scenario_d100)) = Some [10, 9, 8, 7, 6, 5, 4, 3, 2, 1]"
    by (auto simp: cache_after_def)
  have "\<exists>c. run scenario_d100 start = Some (c, []) \<and> c_size c = 1024000 \<and>
     lru_entries c = Some [11, 10, 9, 8, 7, 6, 5, 4, 3, 2] \<and> mem c 1 = None \<and>
     cache_get c ''k0'' = Some (None, c) \<and>
     map_option (\<lambda>(r, c'). (r, map_option (val_of c') r)) (cache_get c ''k10'')
       = Some (Some 11, Some (obj 102400 CHR ''a''))"
    by (simp add: scenario_d100_def cache_defs take_obj find_loop.simps evict_loop.simps walk.simps)
  then have c: "run scenario_d100 start \<noteq> None \<and>
   c_size (cache_after scenario_d100) = 1024000 \<and>
   lru_entries (cache_after scenario_d100) = Some [11, 10, 9, 8, 7, 6, 5, 4, 3, 2] \<and>
   mem (cache_after scenario_d100) 1 = None \<and>
   cache_get (cache_after scenario_d100) ''k0'' = Some (None, cache_after scenario_d100) \<and>
   map_option (\<lambda>(r, c'). (r, map_option (val_of c') r)) (cache_get (cache_after scenario_d100) ''k10'')
     = Some (Some 11, Some (obj 102400 CHR ''a''))"
    by (auto simp: cache_after_def)
  show ?thesis using a b c by (simp only: simp_thms)
qed

lemma find_distinct_key:
  "distinct (map f xs) \<Longrightarrow> a \<in> set xs \<Longrightarrow> List.find (\<lambda>b. f b = f a) xs = Some a"
  by (induction xs) (auto simp: image_iff)

lemma kept_in_lru: "kept a ops w \<Longrightarrow> in_lru a w"
  by (cases ops) simp_all

lemma in_lru_inv:
  assumes "inv (c, hs) xs"
  shows "in_lru a (c, hs) \<longleftrightarrow> a \<in> set xs"
  using invD(3)[OF assms] by (simp add: in_lru_def)

lemma inv_dom:
  assumes "inv (c, hs) xs" and "a \<in> set xs"
  shows "mem c a \<noteq> None"
  using ring_dom[of "mem c" xs a] invD(2)[OF assms(1)] assms(2) by (simp add: lru_def)

lemma kept_run:
  assumes "inv w xs" and "a \<in> set xs" and "run ops w = Some w'" and "kept a ops w"
  shows "\<exists>xs'. inv w' xs' \<and> a \<in> set xs' \<and> content (fst w') a = content (fst w) a"
  using assms
proof (induction ops arbitrary: w xs)
  case Nil
  then show ?case by auto
next
  case (Cons x ops)
  obtain c hs where w: "w = (c, hs)" by (cases w)
  from Cons.prems(3) obtain w1 where s: "step x w = Some w1" and r: "run ops w1 = Some w'"
    by (auto split: option.splits)
  from s have A: "admissible x (c, hs)" and e: "exec x (c, hs) = Some w1"
    using w by (auto simp: step_def split: if_splits)
  have k1: "kept a ops w1" using Cons.prems(4) s by simp
  have I: "inv (c, hs) xs" using Cons.prems(1) w by simp
  from step_ok[OF I A] e obtain c1 hs1 xs1 where w1: "w1 = (c1, hs1)" and I1: "inv (c1, hs1) xs1"
    and fr: "\<forall>b. mem c b \<noteq> None \<longrightarrow>
                (if mem c1 b = None then ref_of c b = 1 \<and> b \<notin> set hs1
                 else content c1 b = content c b)"
    by auto
  have a1: "a \<in> set xs1" using kept_in_lru[OF k1] in_lru_inv[OF I1] w1 by simp
  have "mem c a \<noteq> None" using I Cons.prems(2) by (rule inv_dom)
  moreover have "mem c1 a \<noteq> None" using I1 a1 by (rule inv_dom)
  ultimately have c1: "content c1 a = content c a" using fr by auto
  from Cons.IH[OF I1[folded w1] a1 r k1] obtain xs' where "inv w' xs'" "a \<in> set xs'"
    "content (fst w') a = content (fst w1) a" by blast
  then show ?case using c1 w w1 by auto
qed

text \<open>
  C3. In every state reached from \<open>cache_create\<close>, for every key that is present: an
  insert that passes the size check (at most \<open>MAX_OBJECT_SIZE\<close> bytes) returns the
  existing entry, moves it to the head of the LRU order and leaves the key, bytes and size
  of every entry as they were; an insert of more bytes is rejected by the size check,
  which comes first: it returns \<open>NULL\<close> and changes nothing. After an insert of a new
  key \<open>k\<close> with bytes \<open>v\<close> and size \<open>n\<close>, for every further run that never evicts
  the new entry, whatever it inserts for \<open>k\<close>, \<open>cache_get\<close> for \<open>k\<close> returns the new
  entry, which holds the \<open>n\<close> bytes copied from \<open>v\<close> and the size \<open>n\<close>.
\<close>

theorem insert_existing_promotes_keeps_bytes:
  assumes "run ops start = Some (c, hs)"
  shows "\<exists>xs. lru_entries c = Some xs \<and>
    (\<forall>e v2 n2 a. e \<in> set xs \<longrightarrow>
        (if n2 \<le> MAX_OBJECT_SIZE
         then \<exists>c'. cache_insert c (key_of c e) v2 n2 a = Some (Some e, c') \<and>
                lru_entries c' = Some (e # remove1 e xs) \<and> (\<forall>b. content c' b = content c b)
         else cache_insert c (key_of c e) v2 n2 a = Some (None, c))) \<and>
    (\<forall>k v n a. n \<le> MAX_OBJECT_SIZE \<longrightarrow> k \<notin> key_of c ` set xs \<longrightarrow> mem c a = None \<longrightarrow>
        (\<exists>c1. cache_insert c k v n a = Some (Some a, c1) \<and>
           (\<forall>ops' c2 hs2. run ops' (c1, hs) = Some (c2, hs2) \<longrightarrow> kept a ops' (c1, hs) \<longrightarrow>
               (\<exists>c3. cache_get c2 k = Some (Some a, c3) \<and>
                     content c3 a = Some (k, malloc_with_data v n, n)))))"
proof -
  from reach_inv[OF assms] obtain xs where I: "inv (c, hs) xs" by blast
  note W = invD(1)[OF I]
  have 1: "if n2 \<le> MAX_OBJECT_SIZE
         then \<exists>c'. cache_insert c (key_of c e) v2 n2 a = Some (Some e, c') \<and>
                lru_entries c' = Some (e # remove1 e xs) \<and> (\<forall>b. content c' b = content c b)
         else cache_insert c (key_of c e) v2 n2 a = Some (None, c)"
    if e: "e \<in> set xs" for e v2 n2 a
  proof (cases "n2 \<le> MAX_OBJECT_SIZE")
    case True
    have f: "List.find (\<lambda>b. key_of c b = key_of c e) xs = Some e"
      using invD(6)[OF I] e by (rule find_distinct_key)
    from cache_insert_existing[OF W True f, of v2 a] obtain c' where
      c': "cache_insert c (key_of c e) v2 n2 a = Some (Some e, c')" "wf (c', hs) (e # remove1 e xs)"
      "\<And>b. map_option data (mem c' b) = map_option data (mem c b)"
      by blast
    have "lru_entries c' = Some (e # remove1 e xs)" using wfD(1)[OF c'(2)] by (rule lru_entries_ok)
    moreover have "\<forall>b. content c' b = content c b" using content_data[OF c'(3)] by blast
    ultimately show ?thesis using True c'(1) by auto
  next
    case False
    then show ?thesis by (simp add: cache_insert_oversize)
  qed
  have 2: "\<exists>c1. cache_insert c k v n a = Some (Some a, c1) \<and>
           (\<forall>ops' c2 hs2. run ops' (c1, hs) = Some (c2, hs2) \<longrightarrow> kept a ops' (c1, hs) \<longrightarrow>
               (\<exists>c3. cache_get c2 k = Some (Some a, c3) \<and>
                     content c3 a = Some (k, malloc_with_data v n, n)))"
    if n: "n \<le> MAX_OBJECT_SIZE" and k: "k \<notin> key_of c ` set xs" and a: "mem c a = None"
    for k v n a
  proof -
    have f: "List.find (\<lambda>b. key_of c b = k) xs = None" using k by (auto simp: find_None_iff)
    let ?ys = "evict_spec ((size_of c)(a := n)) (a # xs)"
    from cache_insert_new[OF I n f a, of v] obtain c1 m where
      c1: "cache_insert c k v n a = Some (Some a, c1)" "inv (c1, hs) ?ys"
      "?ys = a # take m xs" "content c1 a = Some (k, malloc_with_data v n, n)"
      by blast
    have a1: "a \<in> set ?ys" using c1(3) by simp
    have "\<exists>c3. cache_get c2 k = Some (Some a, c3) \<and>
                     content c3 a = Some (k, malloc_with_data v n, n)"
      if r: "run ops' (c1, hs) = Some (c2, hs2)" and kp: "kept a ops' (c1, hs)" for ops' c2 hs2
    proof -
      from kept_run[OF c1(2) a1 r kp] obtain xs2 where I2: "inv (c2, hs2) xs2" and a2: "a \<in> set xs2"
        and ct: "content c2 a = content c1 a" by auto
      have "mem c2 a \<noteq> None" using I2 a2 by (rule inv_dom)
      then have ka: "key_of c2 a = k" using ct c1(4) by (auto simp: content_def key_of_def)
      have "List.find (\<lambda>b. key_of c2 b = key_of c2 a) xs2 = Some a"
        using invD(6)[OF I2] a2 by (rule find_distinct_key)
      then have f2: "List.find (\<lambda>b. key_of c2 b = k) xs2 = Some a" using ka by simp
      from cache_get_hit[OF invD(1)[OF I2] f2] obtain c3 where
        "cache_get c2 k = Some (Some a, c3)" "\<And>b. content c3 b = content c2 b"
        by blast
      then show ?thesis using ct c1(4) by auto
    qed
    then show ?thesis using c1(1) by blast
  qed
  show ?thesis using invD(3)[OF I] 1 2 by blast
qed

theorem insert_existing_promotes_keeps_bytes_witness:
  "\<exists>c hs. run [Insert ''a'' ''xx'' 2 1, Insert ''b'' ''y'' 1 2] start = Some (c, hs) \<and>
     lru_entries c = Some [2, 1] \<and> key_of c 1 = ''a'' \<and>
     (\<exists>c'. cache_insert c ''a'' ''zz'' 2 3 = Some (Some 1, c') \<and> lru_entries c' = Some [1, 2] \<and>
           content c' 1 = content c 1) \<and>
     (\<exists>c1 c2 hs2 c3. cache_insert c ''c'' ''pqr'' 3 3 = Some (Some 3, c1) \<and>
        run [Insert ''c'' ''other'' 5 4, Get ''a''] (c1, hs) = Some (c2, hs2) \<and>
        kept 3 [Insert ''c'' ''other'' 5 4, Get ''a''] (c1, hs) \<and>
        cache_get c2 ''c'' = Some (Some 3, c3) \<and> content c3 3 = Some (''c'', ''pqr'', 3))"
proof -
  have "\<exists>c hs c1 c2 hs2. run [Insert ''a'' ''xx'' 2 1, Insert ''b'' ''y'' 1 2] start = Some (c, hs) \<and>
     lru_entries c = Some [2, 1] \<and> key_of c 1 = ''a'' \<and> key_of c 2 = ''b'' \<and> mem c 3 = None \<and>
     cache_insert c ''c'' ''pqr'' 3 3 = Some (Some 3, c1) \<and>
     run [Insert ''c'' ''other'' 5 4, Get ''a''] (c1, hs) = Some (c2, hs2) \<and>
     kept 3 [Insert ''c'' ''other'' 5 4, Get ''a''] (c1, hs)"
    by (simp add: cache_defs in_lru_def find_loop.simps evict_loop.simps walk.simps)
  then obtain c hs c1 c2 hs2 where
    r: "run [Insert ''a'' ''xx'' 2 1, Insert ''b'' ''y'' 1 2] start = Some (c, hs)"
    and l: "lru_entries c = Some [2, 1]" and k: "key_of c 1 = ''a''" "key_of c 2 = ''b''"
    and m: "mem c 3 = None" and i: "cache_insert c ''c'' ''pqr'' 3 3 = Some (Some 3, c1)"
    and r2: "run [Insert ''c'' ''other'' 5 4, Get ''a''] (c1, hs) = Some (c2, hs2)"
    and kp: "kept 3 [Insert ''c'' ''other'' 5 4, Get ''a''] (c1, hs)"
    by blast
  from insert_existing_promotes_keeps_bytes[OF r] obtain xs where x: "lru_entries c = Some xs"
    and p1: "\<forall>e v2 n2 a. e \<in> set xs \<longrightarrow>
        (if n2 \<le> MAX_OBJECT_SIZE
         then \<exists>c'. cache_insert c (key_of c e) v2 n2 a = Some (Some e, c') \<and>
                lru_entries c' = Some (e # remove1 e xs) \<and> (\<forall>b. content c' b = content c b)
         else cache_insert c (key_of c e) v2 n2 a = Some (None, c))"
    and p2: "\<forall>k v n a. n \<le> MAX_OBJECT_SIZE \<longrightarrow> k \<notin> key_of c ` set xs \<longrightarrow> mem c a = None \<longrightarrow>
        (\<exists>c1. cache_insert c k v n a = Some (Some a, c1) \<and>
           (\<forall>ops' c2 hs2. run ops' (c1, hs) = Some (c2, hs2) \<longrightarrow> kept a ops' (c1, hs) \<longrightarrow>
               (\<exists>c3. cache_get c2 k = Some (Some a, c3) \<and>
                     content c3 a = Some (k, malloc_with_data v n, n))))"
    by blast
  have xs: "xs = [2, 1]" using x l by simp
  have n2: "(2::nat) \<le> MAX_OBJECT_SIZE" and n3: "(3::nat) \<le> MAX_OBJECT_SIZE"
    by (simp_all add: MAX_OBJECT_SIZE_def)
  have "1 \<in> set xs" using xs by simp
  from p1[rule_format, OF this, of 2 "''zz''" 3] n2 k(1) xs
  have a: "\<exists>c'. cache_insert c ''a'' ''zz'' 2 3 = Some (Some 1, c') \<and> lru_entries c' = Some [1, 2] \<and>
           content c' 1 = content c 1"
    by auto
  have kc: "''c'' \<notin> key_of c ` set xs" using xs k by simp
  from p2[rule_format, OF n3 kc m, of "''pqr''"] i
  have "\<forall>ops' c2 hs2. run ops' (c1, hs) = Some (c2, hs2) \<longrightarrow> kept 3 ops' (c1, hs) \<longrightarrow>
               (\<exists>c3. cache_get c2 ''c'' = Some (Some 3, c3) \<and>
                     content c3 3 = Some (''c'', malloc_with_data ''pqr'' 3, 3))"
    by auto
  from this[rule_format, OF r2 kp] obtain c3 where
    "cache_get c2 ''c'' = Some (Some 3, c3)" "content c3 3 = Some (''c'', ''pqr'', 3)"
    by (auto simp: malloc_with_data_def)
  then have b: "\<exists>c1 c2 hs2 c3. cache_insert c ''c'' ''pqr'' 3 3 = Some (Some 3, c1) \<and>
        run [Insert ''c'' ''other'' 5 4, Get ''a''] (c1, hs) = Some (c2, hs2) \<and>
        kept 3 [Insert ''c'' ''other'' 5 4, Get ''a''] (c1, hs) \<and>
        cache_get c2 ''c'' = Some (Some 3, c3) \<and> content c3 3 = Some (''c'', ''pqr'', 3)"
    using i r2 kp by blast
  show ?thesis using r l k(1) a b by blast
qed

lemma MAXLINE_pos: "0 < MAXLINE"
  by (simp add: MAXLINE_def)

lemma snprintf_clean:
  assumes "length t + length s < MAXLINE"
  shows "snprintf_out (length t, t) s = Inr (length (t @ s), t @ s)"
  using assms by (simp add: snprintf_out_def min_def)

lemma snprintf_full:
  assumes "\<not> length t + length s < MAXLINE"
  shows "snprintf_out (length t, t) s = Inl Buffer_overrun \<or>
         (\<exists>st'. snprintf_out (length t, t) s = Inr st' \<and> MAXLINE \<le> fst st')"
  using assms by (simp add: snprintf_out_def)

lemma snprintf_poisoned:
  assumes "MAXLINE \<le> fst st"
  shows "snprintf_out st s = Inl Buffer_overrun"
  using assms by (cases st) (simp add: snprintf_out_def)

lemma emit_poisoned:
  assumes "MAXLINE \<le> fst st"
  shows "emit ss st = Inl Buffer_overrun \<or> (ss = [] \<and> emit ss st = Inr st)"
  using assms by (cases ss) (simp_all add: snprintf_poisoned)

lemma emit_append:
  "emit (ss @ ts) st = (case emit ss st of Inl f \<Rightarrow> Inl f | Inr st' \<Rightarrow> emit ts st')"
  by (induction ss arbitrary: st) (auto split: sum.splits)

lemma emit_clean:
  assumes "length (t @ concat ss) < MAXLINE"
  shows "emit ss (length t, t) = Inr (length (t @ concat ss), t @ concat ss)"
  using assms
proof (induction ss arbitrary: t)
  case Nil
  then show ?case by simp
next
  case (Cons s ss)
  have 1: "length t + length s < MAXLINE" using Cons.prems by simp
  have 2: "length ((t @ s) @ concat ss) < MAXLINE" using Cons.prems by simp
  show ?case using snprintf_clean[OF 1] Cons.IH[OF 2] by simp
qed

lemma emit_full:
  assumes "\<not> length (t @ concat ss) < MAXLINE" and "length t < MAXLINE"
  shows "emit ss (length t, t) = Inl Buffer_overrun \<or>
         (\<exists>st'. emit ss (length t, t) = Inr st' \<and> MAXLINE \<le> fst st')"
  using assms
proof (induction ss arbitrary: t)
  case Nil
  then show ?case by simp
next
  case (Cons s ss)
  show ?case
  proof (cases "length t + length s < MAXLINE")
    case True
    have 2: "\<not> length ((t @ s) @ concat ss) < MAXLINE" using Cons.prems by simp
    have 3: "length (t @ s) < MAXLINE" using True by simp
    show ?thesis using snprintf_clean[OF True] Cons.IH[OF 2 3] by simp
  next
    case False
    from snprintf_full[OF False] show ?thesis
    proof
      assume "snprintf_out (length t, t) s = Inl Buffer_overrun"
      then show ?thesis by simp
    next
      assume "\<exists>st'. snprintf_out (length t, t) s = Inr st' \<and> MAXLINE \<le> fst st'"
      then obtain st' where st': "snprintf_out (length t, t) s = Inr st'" "MAXLINE \<le> fst st'"
        by blast
      have "emit (s # ss) (length t, t) = emit ss st'" using st'(1) by simp
      then show ?thesis using emit_poisoned[OF st'(2), of ss] st'(2) by metis
    qed
  qed
qed

lemma copy_headers_emit:
  "copy_headers hs st hf =
     (case emit (map header_line (filter (\<lambda>h. \<not> overridden (fst h)) hs)) st of
        Inl f \<Rightarrow> Inl f
      | Inr st' \<Rightarrow> Inr (st', hf \<or> ''Host'' \<in> fst ` set hs))"
proof (induction hs arbitrary: st hf)
  case Nil
  then show ?case by simp
next
  case (Cons h hs)
  show ?case
  proof (cases "overridden (fst h)")
    case True
    then have nh: "fst h \<noteq> ''Host''" by (auto simp: overridden_def)
    have a: "copy_headers (h # hs) st hf = copy_headers hs st hf"
      using True by (simp add: overridden_def)
    have b: "filter (\<lambda>h. \<not> overridden (fst h)) (h # hs) = filter (\<lambda>h. \<not> overridden (fst h)) hs"
      using True by simp
    have c: "(''Host'' \<in> fst ` set (h # hs)) = (''Host'' \<in> fst ` set hs)" using nh by auto
    show ?thesis unfolding a b c by (rule Cons.IH)
  next
    case False
    have a: "copy_headers (h # hs) st hf =
        (case snprintf_out st (header_line h) of
           Inl f \<Rightarrow> Inl f
         | Inr st' \<Rightarrow> copy_headers hs st' (hf \<or> fst h = ''Host''))"
      using False by (simp add: overridden_def header_line_def)
    have b: "filter (\<lambda>h. \<not> overridden (fst h)) (h # hs) = h # filter (\<lambda>h. \<not> overridden (fst h)) hs"
      using False by simp
    show ?thesis unfolding a b
      by (cases "snprintf_out st (header_line h)") (auto simp: Cons.IH split: sum.splits)
  qed
qed

lemma snprintf_full_short:
  assumes "\<not> length t + length s < MAXLINE" and "length s < MAXLINE"
  shows "snprintf_out (length t, t) s = Inl Buffer_overrun"
proof -
  have "min (length s) (MAXLINE - 1) = length s" using assms(2) by simp
  then show ?thesis using assms(1) by (simp add: snprintf_out_def)
qed

lemma fixed_tail_short: "length fixed_tail < MAXLINE"
  by (simp add: fixed_tail_def MAXLINE_def CRLF_def header_user_agent_def)

lemma construct_emit:
  "construct_new_request hs info =
     (case emit (pieces hs info @ [fixed_tail]) (0, []) of
        Inl f \<Rightarrow> Inl f
      | Inr st \<Rightarrow> Inr (True, snd st))"
  by (simp add: construct_new_request_def pieces_def fixed_tail_def copy_headers_emit emit_append
        split: sum.splits)

lemma rewrite_spec_pieces: "rewrite_spec hs info = concat (pieces hs info @ [fixed_tail])"
  by (simp add: rewrite_spec_def pieces_def fixed_tail_def outbound_headers_def header_line_def)

lemma construct_new_request_spec:
  "construct_new_request hs info =
     (if length (rewrite_spec hs info) < MAXLINE then Inr (True, rewrite_spec hs info)
      else Inl Buffer_overrun)"
proof (cases "length (rewrite_spec hs info) < MAXLINE")
  case True
  then have "length ([] @ concat (pieces hs info @ [fixed_tail])) < MAXLINE"
    by (simp add: rewrite_spec_pieces)
  from emit_clean[OF this] show ?thesis using True
    by (simp add: construct_emit rewrite_spec_pieces)
next
  case False
  let ?F = "concat (pieces hs info)"
  have e: "emit (pieces hs info @ [fixed_tail]) (0, []) = Inl Buffer_overrun"
  proof (cases "length ?F < MAXLINE")
    case True
    then have "length ([] @ ?F) < MAXLINE" by simp
    from emit_clean[OF this] have 1: "emit (pieces hs info) (0, []) = Inr (length ?F, ?F)" by simp
    have "\<not> length ?F + length fixed_tail < MAXLINE" using False by (simp add: rewrite_spec_pieces)
    from snprintf_full_short[OF this fixed_tail_short] show ?thesis using 1 by (simp add: emit_append)
  next
    case F: False
    then have "\<not> length ([] @ ?F) < MAXLINE" by simp
    from emit_full[OF this] MAXLINE_pos
    have "emit (pieces hs info) (0, []) = Inl Buffer_overrun \<or>
         (\<exists>st'. emit (pieces hs info) (0, []) = Inr st' \<and> MAXLINE \<le> fst st')" by simp
    then show ?thesis
    proof
      assume "emit (pieces hs info) (0, []) = Inl Buffer_overrun"
      then show ?thesis by (simp add: emit_append)
    next
      assume "\<exists>st'. emit (pieces hs info) (0, []) = Inr st' \<and> MAXLINE \<le> fst st'"
      then obtain st' where "emit (pieces hs info) (0, []) = Inr st'" "MAXLINE \<le> fst st'" by blast
      then show ?thesis by (simp add: emit_append snprintf_poisoned)
    qed
  qed
  show ?thesis using False e by (simp add: construct_emit)
qed



text \<open>
  C6 is not what the code does. The rewritten form of this request has 9187 bytes, more
  than the 8192 of \<open>new_req\<close>; \<open>construct_new_request\<close> does not report failure, it
  writes past the end of the buffer. It has no \<open>return false\<close>: whatever the request,
  failure is never what it returns.
\<close>

theorem rewriter_overruns_buffer:
  "length (rewrite_spec long_headers example_info) = 9187 \<and>
   construct_new_request long_headers example_info = Inl Buffer_overrun \<and>
   (\<forall>hs info msg. construct_new_request hs info \<noteq> Inr (False, msg))"
proof -
  have 1: "length (rewrite_spec long_headers example_info) = 9187"
    by (simp add: rewrite_spec_def outbound_headers_def long_headers_def example_info_def
          overridden_def header_line_def CRLF_def header_user_agent_def)
  have 2: "construct_new_request long_headers example_info = Inl Buffer_overrun"
    using 1 by (simp add: construct_new_request_spec MAXLINE_def)
  have 3: "\<forall>hs info msg. construct_new_request hs info \<noteq> Inr (False, msg)"
    by (simp add: construct_new_request_spec)
  show ?thesis using 1 2 3 by blast
qed

lemma dec_length: "n < 10 ^ k \<Longrightarrow> 0 < k \<Longrightarrow> length (dec n) \<le> k"
proof (induction k arbitrary: n)
  case 0
  then show ?case by simp
next
  case (Suc k)
  show ?case
  proof (cases "n < 10")
    case True
    then show ?thesis by (subst dec.simps) simp
  next
    case False
    then have k: "0 < k" using Suc.prems(1) by (cases k) auto
    have "n div 10 < 10 ^ k" using Suc.prems(1) by (simp add: less_mult_imp_div_less mult.commute)
    from Suc.IH[OF this k] show ?thesis using False by (subst dec.simps) simp
  qed
qed

lemma clienterror_sent:
  assumes "room fd = None"
    and "length errnum + length shortmsg + length longmsg \<le> 1000"
  shows "clienterror fd errnum shortmsg longmsg =
           fd\<lparr>sent := sent fd @
                 error_head errnum shortmsg (length (error_body errnum shortmsg longmsg)) @
                 error_body errnum shortmsg longmsg\<rparr>"
proof -
  let ?b = "error_body errnum shortmsg longmsg"
  have b: "length ?b < 2000" using assms(2) by (simp add: error_body_def CRLF_def)
  then have "length ?b < 10 ^ 4" by simp
  then have "length (dec (length ?b)) \<le> 4" by (rule dec_length) simp
  then have h: "length (error_head errnum shortmsg (length ?b)) < 2000"
    using assms(2) by (simp add: error_head_def CRLF_def)
  show ?thesis using b h assms(1)
    by (simp add: clienterror_def Let_def MAXBUF_def MAXLINE_def rio_writen_def)
qed

lemma replied_clienterror:
  assumes "room fd = None" and "length errnum + length shortmsg + length longmsg \<le> 1000"
  shows "replied fd (clienterror fd errnum shortmsg longmsg) errnum shortmsg"
proof -
  have t: "take (length a + length b) (a @ b @ c) = a @ b" for a b c :: string
    by simp
  obtain r where "error_head errnum shortmsg (length (error_body errnum shortmsg longmsg)) =
      status_line errnum shortmsg @ r"
    by (simp add: error_head_def status_line_def)
  then show ?thesis
    unfolding replied_def clienterror_sent[OF assms] using t by simp
qed

text \<open>
  The checks of \<open>parse_http_request\<close> come in a fixed order, the version first: the
  request line \<open>POST http://h/ HTTP/2.0\<close> has a method that is not \<open>GET\<close>, and the
  reply is \<open>400 Bad Request\<close>, not \<open>501 Not Implemented\<close>.
\<close>

lemma post_with_bad_version_gets_400:
  "parsed (fst (snd (parse_http_request example_parse
       [Rio_line (''POST http://h/ HTTP/2.0'' @ CRLF), Rio_line CRLF] parser_new fresh_sock))) METHOD
     = Some ''POST'' \<and>
   take 26 (sent (snd (snd (parse_http_request example_parse
       [Rio_line (''POST http://h/ HTTP/2.0'' @ CRLF), Rio_line CRLF] parser_new fresh_sock))))
     = ''HTTP/1.0 400 Bad Request'' @ CRLF"
  by (simp add: parse_http_request_def example_parse_def request_fields_def parser_new_def
        fresh_sock_def CRLF_def clienterror_def error_body_def error_head_def Let_def
        MAXBUF_def MAXLINE_def rio_writen_def dec.simps)

text \<open>
  What \<open>parse_http_request\<close> replies. When the lines of the request were read without a
  read error, at least one of them was parsed, and the client takes what it is sent, the
  checks are made on what the parser holds, in this order, and the first that fails
  decides the reply: no version, or one that is neither 1.0 nor 1.1: 400 Bad Request;
  no method: 400, a method other than \<open>GET\<close>: 501 Not Implemented; no scheme: 400, a
  scheme other than \<open>http\<close>: 501; no URI, host, port or path: 400. In each of these
  cases the function returns false. When every check passes it returns true and sends
  nothing. A line that the parser rejects ends the reading of lines, and nothing else.
\<close>

lemma parse_replies_in_order:
  assumes "read_request pl input p0 0 = Some (p, n)" and "0 < n" and "room fd = None"
  shows "(\<not> version_ok p \<longrightarrow>
            (\<exists>fd'. parse_http_request pl input p0 fd = (None, p, fd') \<and>
                   replied fd fd' ''400'' ''Bad Request'')) \<and>
         (version_ok p \<and> parsed p METHOD = None \<longrightarrow>
            (\<exists>fd'. parse_http_request pl input p0 fd = (None, p, fd') \<and>
                   replied fd fd' ''400'' ''Bad Request'')) \<and>
         (version_ok p \<and> parsed p METHOD \<noteq> None \<and> parsed p METHOD \<noteq> Some ''GET'' \<longrightarrow>
            (\<exists>fd'. parse_http_request pl input p0 fd = (None, p, fd') \<and>
                   replied fd fd' ''501'' ''Not Implemented'')) \<and>
         (version_ok p \<and> parsed p METHOD = Some ''GET'' \<and> parsed p SCHEME = None \<longrightarrow>
            (\<exists>fd'. parse_http_request pl input p0 fd = (None, p, fd') \<and>
                   replied fd fd' ''400'' ''Bad Request'')) \<and>
         (version_ok p \<and> parsed p METHOD = Some ''GET'' \<and> parsed p SCHEME \<noteq> None \<and>
          parsed p SCHEME \<noteq> Some ''http'' \<longrightarrow>
            (\<exists>fd'. parse_http_request pl input p0 fd = (None, p, fd') \<and>
                   replied fd fd' ''501'' ''Not Implemented'')) \<and>
         (version_ok p \<and> parsed p METHOD = Some ''GET'' \<and> parsed p SCHEME = Some ''http'' \<and>
          (parsed p URI = None \<or> parsed p HOST = None \<or> parsed p PORT = None \<or>
           parsed p PATH = None) \<longrightarrow>
            (\<exists>fd'. parse_http_request pl input p0 fd = (None, p, fd') \<and>
                   replied fd fd' ''400'' ''Bad Request'')) \<and>
         (version_ok p \<and> parsed p METHOD = Some ''GET'' \<and> parsed p SCHEME = Some ''http'' \<and>
          parsed p URI \<noteq> None \<and> parsed p HOST \<noteq> None \<and> parsed p PORT \<noteq> None \<and>
          parsed p PATH \<noteq> None \<longrightarrow>
            (\<exists>info. parse_http_request pl input p0 fd = (Some info, p, fd))) \<and>
         (\<forall>buf rest p1 n1. buf \<noteq> CRLF \<longrightarrow> fst (pl p1 buf) = ERROR \<longrightarrow>
            read_request pl (Rio_line buf # rest) p1 n1 = Some (snd (pl p1 buf), n1))"
proof -
  note r = replied_clienterror[OF assms(3)]
  have n: "n \<noteq> 0" using assms(2) by simp
  have 1: "\<not> version_ok p \<longrightarrow>
            (\<exists>fd'. parse_http_request pl input p0 fd = (None, p, fd') \<and>
                   replied fd fd' ''400'' ''Bad Request'')"
    using assms(1) n by (auto simp: parse_http_request_def version_ok_def r split: option.splits)
  have 2: "version_ok p \<and> parsed p METHOD = None \<longrightarrow>
            (\<exists>fd'. parse_http_request pl input p0 fd = (None, p, fd') \<and>
                   replied fd fd' ''400'' ''Bad Request'')"
    using assms(1) n by (auto simp: parse_http_request_def version_ok_def r split: option.splits)
  have 3: "version_ok p \<and> parsed p METHOD \<noteq> None \<and> parsed p METHOD \<noteq> Some ''GET'' \<longrightarrow>
            (\<exists>fd'. parse_http_request pl input p0 fd = (None, p, fd') \<and>
                   replied fd fd' ''501'' ''Not Implemented'')"
    using assms(1) n by (auto simp: parse_http_request_def version_ok_def r split: option.splits)
  have 4: "version_ok p \<and> parsed p METHOD = Some ''GET'' \<and> parsed p SCHEME = None \<longrightarrow>
            (\<exists>fd'. parse_http_request pl input p0 fd = (None, p, fd') \<and>
                   replied fd fd' ''400'' ''Bad Request'')"
    using assms(1) n by (auto simp: parse_http_request_def version_ok_def r split: option.splits)
  have 5: "version_ok p \<and> parsed p METHOD = Some ''GET'' \<and> parsed p SCHEME \<noteq> None \<and>
          parsed p SCHEME \<noteq> Some ''http'' \<longrightarrow>
            (\<exists>fd'. parse_http_request pl input p0 fd = (None, p, fd') \<and>
                   replied fd fd' ''501'' ''Not Implemented'')"
    using assms(1) n by (auto simp: parse_http_request_def version_ok_def r split: option.splits)
  have 6: "version_ok p \<and> parsed p METHOD = Some ''GET'' \<and> parsed p SCHEME = Some ''http'' \<and>
          (parsed p URI = None \<or> parsed p HOST = None \<or> parsed p PORT = None \<or>
           parsed p PATH = None) \<longrightarrow>
            (\<exists>fd'. parse_http_request pl input p0 fd = (None, p, fd') \<and>
                   replied fd fd' ''400'' ''Bad Request'')"
    using assms(1) n by (auto simp: parse_http_request_def version_ok_def r split: option.splits)
  have 7: "version_ok p \<and> parsed p METHOD = Some ''GET'' \<and> parsed p SCHEME = Some ''http'' \<and>
          parsed p URI \<noteq> None \<and> parsed p HOST \<noteq> None \<and> parsed p PORT \<noteq> None \<and>
          parsed p PATH \<noteq> None \<longrightarrow>
            (\<exists>info. parse_http_request pl input p0 fd = (Some info, p, fd))"
    using assms(1) n by (auto simp: parse_http_request_def version_ok_def split: option.splits)
  have 8: "\<forall>buf rest p1 n1. buf \<noteq> CRLF \<longrightarrow> fst (pl p1 buf) = ERROR \<longrightarrow>
            read_request pl (Rio_line buf # rest) p1 n1 = Some (snd (pl p1 buf), n1)"
    by (auto split: prod.splits parser_state.splits)
  show ?thesis using 1 2 3 4 5 6 7 8 by (intro conjI)
qed

lemma parse_replies_in_order_example:
  "read_request example_parse [Rio_line (''POST http://h/ HTTP/1.0'' @ CRLF), Rio_line CRLF]
       parser_new 0 = Some (parser_new\<lparr>parsed := request_fields ''POST'' ''1.0''\<rparr>, 25) \<and>
   (\<exists>fd'. parse_http_request example_parse
       [Rio_line (''POST http://h/ HTTP/1.0'' @ CRLF), Rio_line CRLF] parser_new fresh_sock
         = (None, parser_new\<lparr>parsed := request_fields ''POST'' ''1.0''\<rparr>, fd') \<and>
      replied fresh_sock fd' ''501'' ''Not Implemented'')"
proof -
  let ?p = "parser_new\<lparr>parsed := request_fields ''POST'' ''1.0''\<rparr>"
  have r: "read_request example_parse [Rio_line (''POST http://h/ HTTP/1.0'' @ CRLF), Rio_line CRLF]
       parser_new 0 = Some (?p, 25)"
    by (simp add: example_parse_def CRLF_def)
  have n: "(0::nat) < 25" by simp
  have f: "room fresh_sock = None" by (simp add: fresh_sock_def)
  have c: "version_ok ?p \<and> parsed ?p METHOD \<noteq> None \<and> parsed ?p METHOD \<noteq> Some ''GET''"
    by (simp add: version_ok_def request_fields_def)
  note t = parse_replies_in_order[OF r n f]
  note t3 = t[THEN conjunct2, THEN conjunct2, THEN conjunct1, rule_format, OF c]
  show ?thesis using r t3 by (intro conjI)
qed

text \<open>
  A first line that the parser rejects: the loop is left with \<open>n = 0\<close>, the check for an
  empty request returns false, and nothing has been sent to the client. A later line that
  the parser rejects: the loop is left, and the checks are made on what the lines before
  it gave.
\<close>

lemma rejected_first_line:
  assumes "buf \<noteq> CRLF" and "fst (pl p0 buf) = ERROR"
  shows "parse_http_request pl (Rio_line buf # rest) p0 fd = (None, snd (pl p0 buf), fd)"
proof -
  obtain p' where "pl p0 buf = (ERROR, p')" using assms(2) by (cases "pl p0 buf") simp
  then show ?thesis using assms(1) by (simp add: parse_http_request_def)
qed

lemma rejected_later_line:
  assumes "line \<noteq> CRLF" and "pl p0 line = (REQUEST, p1)" and "0 < length line"
    and "buf \<noteq> CRLF" and "pl p1 buf = (ERROR, p2)"
  shows "parse_http_request pl (Rio_line line # Rio_line buf # rest) p0 fd =
         parse_http_request pl [Rio_line line, Rio_line buf] p0 fd \<and>
         read_request pl (Rio_line line # Rio_line buf # rest) p0 0 = Some (p2, length line)"
  using assms by (simp add: parse_http_request_def)

lemma serve_failed_parse:
  assumes "parse_http_request pl input parser_new fd = (None, p, fd')"
  shows "serve True pl input fd connect g a buf0 =
         Inr \<lparr>client = fd', client_closed = True, upstream = None, g_cache = g\<rparr>"
  using assms by (simp add: serve_def)

lemma serve_detach_failed:
  "serve False pl input fd connect g a buf0 =
     Inr \<lparr>client = fd, client_closed = False, upstream = None, g_cache = g\<rparr>"
  by (simp add: serve_def)

text \<open>
  C7. The code does not do what the claim says, and what its own comments promise, for a
  line that the parser rejects: the reply is not \<open>400 Bad Request\<close>. When the first
  line is rejected, \<open>parse_http_request\<close> returns false and has sent nothing to the
  client. When a header line after a good request line is rejected,
  \<open>parse_http_request\<close> returns true, as for a request without that line, and has sent
  nothing.
\<close>

theorem rejected_line_gets_no_reply:
  "fst (example_parse parser_new (''BOGUS'' @ CRLF)) = ERROR \<and>
   parse_http_request example_parse [Rio_line (''BOGUS'' @ CRLF), Rio_line CRLF] parser_new fresh_sock
     = (None, parser_new, fresh_sock) \<and>
   sent fresh_sock = [] \<and>
   fst (example_parse (parser_new\<lparr>parsed := request_fields ''GET'' ''1.0''\<rparr>) (''BOGUS'' @ CRLF))
     = ERROR \<and>
   parse_http_request example_parse
       [Rio_line (''GET http://h/ HTTP/1.0'' @ CRLF), Rio_line (''BOGUS'' @ CRLF), Rio_line CRLF]
       parser_new fresh_sock
     = (Some \<lparr>method' = ''GET'', version = ''1.0'', scheme = ''http'', uri = ''http://h/'',
              host = ''h'', port = ''80'', path = ''/''\<rparr>,
        parser_new\<lparr>parsed := request_fields ''GET'' ''1.0''\<rparr>, fresh_sock)"
  by (simp add: parse_http_request_def example_parse_def request_fields_def parser_new_def
        fresh_sock_def CRLF_def)

lemma MAX_OBJECT_pos: "0 < MAX_OBJECT_SIZE"
  by (simp add: MAX_OBJECT_SIZE_def)

lemma rio_writen_open:
  "room cl = None \<Longrightarrow> rio_writen cl d = (True, cl\<lparr>sent := sent cl @ d\<rparr>)"
  by (simp add: rio_writen_def)

lemma forward_loop_eof:
  assumes "\<not> broken h" and "pending h = []"
  shows "forward_loop h cl buf cs = (True, h\<lparr>pending := []\<rparr>, cl, buf, cs)"
  using assms MAX_OBJECT_pos by (subst forward_loop.simps) (simp add: rio_readnb_def)

text \<open>
  What the worker then does with the two requests. After the rejected first line it closes
  the client's socket, to which nothing was sent. After the rejected header line it goes
  on as for a good request: here the cache has no entry, the origin \<open>h:80\<close> accepts the
  connection, is sent the rewritten request and answers with end of file.
\<close>

lemma rejected_header_parse:
  "parse_http_request example_parse
       [Rio_line (''GET http://h/ HTTP/1.0'' @ CRLF), Rio_line (''BOGUS'' @ CRLF), Rio_line CRLF]
       parser_new fresh_sock
     = (Some \<lparr>method' = ''GET'', version = ''1.0'', scheme = ''http'', uri = ''http://h/'',
              host = ''h'', port = ''80'', path = ''/''\<rparr>,
        parser_new\<lparr>parsed := request_fields ''GET'' ''1.0''\<rparr>, fresh_sock)"
  by (simp add: parse_http_request_def example_parse_def request_fields_def parser_new_def
        fresh_sock_def CRLF_def)

lemma serve_rejected_first_line:
  "serve True example_parse [Rio_line (''BOGUS'' @ CRLF), Rio_line CRLF] fresh_sock connect g a buf0 =
     Inr \<lparr>client = fresh_sock, client_closed = True, upstream = None, g_cache = g\<rparr>"
proof -
  have "parse_http_request example_parse [Rio_line (''BOGUS'' @ CRLF), Rio_line CRLF]
          parser_new fresh_sock = (None, parser_new, fresh_sock)"
    by (simp add: parse_http_request_def example_parse_def CRLF_def)
  then show ?thesis by (rule serve_failed_parse)
qed

lemma serve_forwards_after_rejected_header:
  "serve True example_parse
       [Rio_line (''GET http://h/ HTTP/1.0'' @ CRLF), Rio_line (''BOGUS'' @ CRLF), Rio_line CRLF]
       fresh_sock
       (\<lambda>h p. if h = ''h'' \<and> p = ''80'' then Some (fresh_sock, \<lparr>pending = [], broken = False\<rparr>)
              else None)
       cache_create a buf0 =
     Inr \<lparr>client = fresh_sock, client_closed = True,
          upstream = Some \<lparr>sent = ''GET http://h/ HTTP/1.0'' @ CRLF @ ''Host: h:80'' @ CRLF @
                              ''Connection: close'' @ CRLF @ ''Proxy-Connection: close'' @ CRLF @
                              ''User-Agent: '' @ header_user_agent @ CRLF @ CRLF,
                           room = None\<rparr>,
          g_cache = cache_create\<rparr>"
proof -
  let ?info = "\<lparr>method' = ''GET'', version = ''1.0'', scheme = ''http'', uri = ''http://h/'',
              host = ''h'', port = ''80'', path = ''/''\<rparr>"
  have g: "cache_get cache_create ''http://h/'' = Some (None, cache_create)"
    by (simp add: cache_get_def find_def cache_create_def)
  have q: "construct_new_request [] ?info = Inr (True, rewrite_spec [] ?info)"
    by (simp add: construct_new_request_spec rewrite_spec_def outbound_headers_def header_line_def
          header_user_agent_def CRLF_def MAXLINE_def)
  have w: "rewrite_spec [] ?info = ''GET http://h/ HTTP/1.0'' @ CRLF @ ''Host: h:80'' @ CRLF @
                              ''Connection: close'' @ CRLF @ ''Proxy-Connection: close'' @ CRLF @
                              ''User-Agent: '' @ header_user_agent @ CRLF @ CRLF"
    by (simp add: rewrite_spec_def outbound_headers_def header_line_def)
  have f: "forward_http_response \<lparr>pending = [], broken = False\<rparr> fresh_sock ''http://h/'' buf0
             cache_create a =
           Some (True, \<lparr>pending = [], broken = False\<rparr>, fresh_sock, cache_create)"
    by (simp add: forward_http_response_def forward_loop_eof)
  have h: "headers (parser_new\<lparr>parsed := request_fields ''GET'' ''1.0''\<rparr>) = []"
    by (simp add: parser_new_def)
  have u: "rio_writen fresh_sock req = (True, \<lparr>sent = req, room = None\<rparr>)" for req
    by (simp add: rio_writen_def fresh_sock_def)
  show ?thesis
    unfolding serve_def rejected_header_parse
    by (simp add: g q w f h u del: append.simps)
qed

lemma rio_readnb_more:
  assumes "\<not> broken h" and "pending h \<noteq> []"
  shows "\<exists>d h'. rio_readnb h MAX_OBJECT_SIZE = (Rio_data d, h') \<and> d \<noteq> [] \<and>
           pending h = d @ pending h' \<and> \<not> broken h' \<and> h'\<lparr>pending := []\<rparr> = h\<lparr>pending := []\<rparr>"
proof (cases "MAX_OBJECT_SIZE \<le> length (pending h)")
  case True
  let ?d = "take MAX_OBJECT_SIZE (pending h)" and ?h = "h\<lparr>pending := drop MAX_OBJECT_SIZE (pending h)\<rparr>"
  have "rio_readnb h MAX_OBJECT_SIZE = (Rio_data ?d, ?h)" using True by (simp add: rio_readnb_def)
  moreover have "?d \<noteq> []" using assms(2) MAX_OBJECT_pos by simp
  moreover have "pending h = ?d @ pending ?h" by simp
  moreover have "\<not> broken ?h" using assms(1) by simp
  moreover have "?h\<lparr>pending := []\<rparr> = h\<lparr>pending := []\<rparr>" by simp
  ultimately show ?thesis by blast
next
  case False
  let ?h = "h\<lparr>pending := []\<rparr>"
  have "rio_readnb h MAX_OBJECT_SIZE = (Rio_data (pending h), ?h)"
    using False assms(1) by (simp add: rio_readnb_def)
  moreover have "pending h = pending h @ pending ?h" by simp
  moreover have "\<not> broken ?h" using assms(1) by simp
  moreover have "?h\<lparr>pending := []\<rparr> = h\<lparr>pending := []\<rparr>" by simp
  ultimately show ?thesis using assms(2) by blast
qed

lemma forward_loop_healthy:
  assumes "\<not> broken h" and "room cl = None" and "cs < SIZE_MOD"
  shows "\<exists>buf'. forward_loop h cl buf cs =
           (True, h\<lparr>pending := []\<rparr>, cl\<lparr>sent := sent cl @ pending h\<rparr>, buf',
            (cs + length (pending h)) mod SIZE_MOD)"
  using assms
proof (induction "length (pending h)" arbitrary: h cl buf cs rule: less_induct)
  case less
  show ?case
  proof (cases "pending h = []")
    case True
    then show ?thesis using forward_loop_eof[OF less.prems(1) True] less.prems(3) by simp
  next
    case False
    from rio_readnb_more[OF less.prems(1) False]
    obtain d h' where rd: "rio_readnb h MAX_OBJECT_SIZE = (Rio_data d, h')" and d: "d \<noteq> []"
      and h': "pending h = d @ pending h'" "\<not> broken h'" "h'\<lparr>pending := []\<rparr> = h\<lparr>pending := []\<rparr>"
      by blast
    have lt: "length (pending h') < length (pending h)" using h'(1) d by simp
    let ?cl = "cl\<lparr>sent := sent cl @ d\<rparr>"
    have rc: "room ?cl = None" using less.prems(2) by simp
    have cs': "(cs + length d) mod SIZE_MOD < SIZE_MOD" by (simp add: SIZE_MOD_def)
    from less.hyps[OF lt h'(2) rc cs', of "d @ drop (length d) buf"] obtain buf' where
      "forward_loop h' ?cl (d @ drop (length d) buf) ((cs + length d) mod SIZE_MOD) =
         (True, h'\<lparr>pending := []\<rparr>, ?cl\<lparr>sent := sent ?cl @ pending h'\<rparr>, buf',
          ((cs + length d) mod SIZE_MOD + length (pending h')) mod SIZE_MOD)"
      by blast
    moreover have "((cs + length d) mod SIZE_MOD + length (pending h')) mod SIZE_MOD =
        (cs + length (pending h)) mod SIZE_MOD"
      using h'(1) by (simp add: mod_add_left_eq add.assoc)
    ultimately have "forward_loop h cl buf cs =
         (True, h\<lparr>pending := []\<rparr>, cl\<lparr>sent := sent cl @ pending h\<rparr>, buf',
          (cs + length (pending h)) mod SIZE_MOD)"
      using rd d h'(1,3) rio_writen_open[OF less.prems(2), of d]
      by (subst forward_loop.simps) simp
    then show ?thesis by blast
  qed
qed

lemma forward_loop_single:
  assumes "\<not> broken h" and "room cl = None" and "pending h \<noteq> []"
    and "length (pending h) \<le> MAX_OBJECT_SIZE"
  shows "forward_loop h cl buf 0 =
           (True, h\<lparr>pending := []\<rparr>, cl\<lparr>sent := sent cl @ pending h\<rparr>,
            pending h @ drop (length (pending h)) buf, length (pending h))"
proof -
  have rd: "rio_readnb h MAX_OBJECT_SIZE = (Rio_data (pending h), h\<lparr>pending := []\<rparr>)"
    using assms(1,4) by (cases "MAX_OBJECT_SIZE = length (pending h)") (auto simp: rio_readnb_def)
  have 2: "forward_loop (h\<lparr>pending := []\<rparr>) c b s = (True, h\<lparr>pending := []\<rparr>, c, b, s)" for c b s
    using forward_loop_eof[of "h\<lparr>pending := []\<rparr>" c b s] assms(1) by simp
  have "length (pending h) < SIZE_MOD"
    using assms(4) by (simp add: MAX_OBJECT_SIZE_def SIZE_MOD_def)
  then show ?thesis using rd assms(3) rio_writen_open[OF assms(2), of "pending h"] 2
    by (subst forward_loop.simps) simp
qed

lemma cache_insert_returns:
  assumes I: "inv (g, hs) xs" and n: "n \<le> MAX_OBJECT_SIZE" and a: "mem g a = None"
  shows "\<exists>e g'. cache_insert g k v n a = Some (Some e, g')"
proof (cases rule: find_cases[of "\<lambda>b. key_of g b = k" xs])
  case miss
  from cache_insert_new[OF I n miss a, of v] show ?thesis by blast
next
  case (hit e)
  from cache_insert_existing[OF invD(1)[OF I] n hit, of v a] show ?thesis by blast
qed

text \<open>
  C5. The origin's stream ends in end of file, not in a read error, and has fewer than
  \<open>2^64\<close> bytes; the client takes what it is sent; the cache is in a state reached from
  \<open>cache_create\<close>. Then \<open>forward_http_response\<close> returns true, the client has been
  sent exactly the bytes of the stream, in order, and the origin is at end of file. If
  the number of bytes is in \<open>(0, MAX_OBJECT_SIZE]\<close>, which is when the first block read
  is the whole response, the cache is what \<open>cache_insert\<close> makes of it for the key,
  \<open>buf\<close> and that number, and \<open>buf\<close> starts with the whole response; otherwise the
  cache is as it was.
\<close>

theorem forward_writes_all_and_caches_small:
  assumes "\<not> broken h" and "room cl = None" and "length (pending h) < SIZE_MOD"
    and "run ops start = Some (g, hs)" and "mem g a = None"
  shows "\<exists>g'. forward_http_response h cl k buf0 g a =
             Some (True, h\<lparr>pending := []\<rparr>, cl\<lparr>sent := sent cl @ pending h\<rparr>, g') \<and>
           ((0 < length (pending h) \<and> length (pending h) \<le> MAX_OBJECT_SIZE) =
            (0 < length (pending h) \<and> length (pending h) \<le> MAX_OBJECT_SIZE \<and>
             fst (rio_readnb h MAX_OBJECT_SIZE) = Rio_data (pending h))) \<and>
           (if 0 < length (pending h) \<and> length (pending h) \<le> MAX_OBJECT_SIZE \<and>
               fst (rio_readnb h MAX_OBJECT_SIZE) = Rio_data (pending h)
            then (\<exists>e. cache_insert g k (pending h @ drop (length (pending h)) buf0)
                          (length (pending h)) a = Some (Some e, g')) \<and>
                 malloc_with_data (pending h @ drop (length (pending h)) buf0)
                   (length (pending h)) = pending h
            else g' = g)"
proof -
  from reach_inv[OF assms(4)] obtain xs where I: "inv (g, hs) xs" by blast
  have rd: "fst (rio_readnb h MAX_OBJECT_SIZE) = Rio_data (pending h)"
    if "length (pending h) \<le> MAX_OBJECT_SIZE"
    using that assms(1) by (cases "MAX_OBJECT_SIZE = length (pending h)") (auto simp: rio_readnb_def)
  show ?thesis
  proof (cases "0 < length (pending h) \<and> length (pending h) \<le> MAX_OBJECT_SIZE")
    case True
    then have ne: "pending h \<noteq> []" and le: "length (pending h) \<le> MAX_OBJECT_SIZE" by auto
    let ?buf = "pending h @ drop (length (pending h)) buf0"
    have fl: "forward_loop h cl buf0 0 =
           (True, h\<lparr>pending := []\<rparr>, cl\<lparr>sent := sent cl @ pending h\<rparr>, ?buf, length (pending h))"
      using assms(1,2) ne le by (rule forward_loop_single)
    from cache_insert_returns[OF I le assms(5), of k ?buf] obtain e g' where
      ci: "cache_insert g k ?buf (length (pending h)) a = Some (Some e, g')" by blast
    have "forward_http_response h cl k buf0 g a =
             Some (True, h\<lparr>pending := []\<rparr>, cl\<lparr>sent := sent cl @ pending h\<rparr>, g')"
      using fl ci True by (simp add: forward_http_response_def)
    moreover have "malloc_with_data ?buf (length (pending h)) = pending h"
      by (simp add: malloc_with_data_def)
    ultimately show ?thesis using True rd[OF le] ci by auto
  next
    case False
    have z: "(0::nat) < SIZE_MOD" by (simp add: SIZE_MOD_def)
    from forward_loop_healthy[OF assms(1,2) z, of buf0] obtain buf' where
      fl: "forward_loop h cl buf0 0 =
           (True, h\<lparr>pending := []\<rparr>, cl\<lparr>sent := sent cl @ pending h\<rparr>, buf',
            (0 + length (pending h)) mod SIZE_MOD)"
      by blast
    have "(0 + length (pending h)) mod SIZE_MOD = length (pending h)" using assms(3) by simp
    then have "forward_http_response h cl k buf0 g a =
             Some (True, h\<lparr>pending := []\<rparr>, cl\<lparr>sent := sent cl @ pending h\<rparr>, g)"
      using fl False by (auto simp: forward_http_response_def)
    then show ?thesis using False by auto
  qed
qed

theorem forward_writes_all_and_caches_small_witness:
  "\<exists>g'. forward_http_response \<lparr>pending = ''HTTP/1.0 200 OK'' @ CRLF @ CRLF @ ''abc'', broken = False\<rparr>
       fresh_sock ''http://h:80/a'' (replicate 102400 CHR ''?'') cache_create 1 =
       Some (True, \<lparr>pending = [], broken = False\<rparr>,
             \<lparr>sent = ''HTTP/1.0 200 OK'' @ CRLF @ CRLF @ ''abc'', room = None\<rparr>, g') \<and>
     (\<exists>e. cache_insert cache_create ''http://h:80/a''
             ((''HTTP/1.0 200 OK'' @ CRLF @ CRLF @ ''abc'') @ drop 22 (replicate 102400 CHR ''?''))
             22 1 = Some (Some e, g'))"
proof -
  let ?h = "\<lparr>pending = ''HTTP/1.0 200 OK'' @ CRLF @ CRLF @ ''abc'', broken = False\<rparr>"
  have 1: "\<not> broken ?h" and 2: "room fresh_sock = None" and 3: "length (pending ?h) < SIZE_MOD"
    and 4: "run [] start = Some (cache_create, [])" and 5: "mem cache_create 1 = None"
    by (simp_all add: fresh_sock_def SIZE_MOD_def CRLF_def start_def cache_create_def)
  have l: "length (pending ?h) = 22" by (simp add: CRLF_def)
  have c: "0 < length (pending ?h) \<and> length (pending ?h) \<le> MAX_OBJECT_SIZE \<and>
               fst (rio_readnb ?h MAX_OBJECT_SIZE) = Rio_data (pending ?h)"
    by (simp add: CRLF_def MAX_OBJECT_SIZE_def rio_readnb_def)
  from forward_writes_all_and_caches_small[OF 1 2 3 4 5, of "''http://h:80/a''" "replicate 102400 CHR ''?''"]
  obtain g' where g': "forward_http_response ?h fresh_sock ''http://h:80/a'' (replicate 102400 CHR ''?'') cache_create 1 =
             Some (True, ?h\<lparr>pending := []\<rparr>, fresh_sock\<lparr>sent := sent fresh_sock @ pending ?h\<rparr>, g')"
    "if 0 < length (pending ?h) \<and> length (pending ?h) \<le> MAX_OBJECT_SIZE \<and>
               fst (rio_readnb ?h MAX_OBJECT_SIZE) = Rio_data (pending ?h)
            then (\<exists>e. cache_insert cache_create ''http://h:80/a'' (pending ?h @ drop (length (pending ?h)) (replicate 102400 CHR ''?''))
                          (length (pending ?h)) 1 = Some (Some e, g')) \<and>
                 malloc_with_data (pending ?h @ drop (length (pending ?h)) (replicate 102400 CHR ''?''))
                   (length (pending ?h)) = pending ?h
            else g' = cache_create"
    by blast
  from g'(2) c have "\<exists>e. cache_insert cache_create ''http://h:80/a'' (pending ?h @ drop (length (pending ?h)) (replicate 102400 CHR ''?''))
                          (length (pending ?h)) 1 = Some (Some e, g')"
    by (simp only: if_True)
  then have i: "\<exists>e. cache_insert cache_create ''http://h:80/a''
             ((''HTTP/1.0 200 OK'' @ CRLF @ CRLF @ ''abc'') @ drop 22 (replicate 102400 CHR ''?''))
             22 1 = Some (Some e, g')"
    unfolding l by (simp only: source.select_convs)
  have "forward_http_response ?h fresh_sock ''http://h:80/a'' (replicate 102400 CHR ''?'') cache_create 1 =
       Some (True, \<lparr>pending = [], broken = False\<rparr>,
             \<lparr>sent = ''HTTP/1.0 200 OK'' @ CRLF @ CRLF @ ''abc'', room = None\<rparr>, g')"
    using g'(1) by (simp add: fresh_sock_def)
  then show ?thesis using i by blast
qed

end
